theory Spec2Isabelle
  imports Complex_Main "HOL-Library.AList" "HOL-Library.Multiset"
begin

section \<open>Boxes and numbers\<close>

text \<open>
  The stable-capture script \<^verbatim>\<open>detect_and_capture.py\<close> works on axis-aligned boxes
  \<^verbatim>\<open>[x1, y1, x2, y2]\<close>. Inside \<^verbatim>\<open>non_max_suppression\<close> they are rows of a float64 array
  (\<^verbatim>\<open>np.array(boxes, dtype=float)\<close>); what it returns, and what the tracking loop handles, are
  lists of Python integers. Floats are modelled by exact rationals: for coordinates of
  pixel magnitude every sum and product of the source is exact in float64, and a quotient
  of two such integers compares with the literals \<^verbatim>\<open>0.4\<close> and \<^verbatim>\<open>0.3\<close> as the exact quotient
  compares with \<open>2/5\<close> and \<open>3/10\<close>. Not-a-number and infinite coordinates are outside the model;
  the not-a-number that a division by zero produces inside the function is modelled.
\<close>

type_synonym fbox = "rat \<times> rat \<times> rat \<times> rat"
type_synonym ibox = "int \<times> int \<times> int \<times> int"
type_synonym rect = "int \<times> int \<times> int \<times> int"

datatype error = IndexError | ZeroDivisionError

definition rect_to_xyxy :: "rect \<Rightarrow> ibox" where
  "rect_to_xyxy r = (case r of (x, y, w, h) \<Rightarrow> (x, y, x + w, y + h))"

definition xyxy_to_rect :: "ibox \<Rightarrow> rect" where
  "xyxy_to_rect xy = (case xy of (x1, y1, x2, y2) \<Rightarrow> (x1, y1, x2 - x1, y2 - y1))"

text \<open>\<^verbatim>\<open>np.array(boxes, dtype=float)\<close> on a row of integers.\<close>

definition to_float :: "ibox \<Rightarrow> fbox" where
  "to_float b = (case b of (x1, y1, x2, y2) \<Rightarrow> (of_int x1, of_int y1, of_int x2, of_int y2))"

text \<open>\<^verbatim>\<open>astype(int)\<close>: every coordinate is truncated toward zero.\<close>

definition trunc_int :: "rat \<Rightarrow> int" where
  "trunc_int r = (if 0 \<le> r then \<lfloor>r\<rfloor> else \<lceil>r\<rceil>)"

definition astype_int :: "fbox \<Rightarrow> ibox" where
  "astype_int b = (case b of (x1, y1, x2, y2) \<Rightarrow>
     (trunc_int x1, trunc_int y1, trunc_int x2, trunc_int y2))"

section \<open>Non-maximum suppression\<close>

text \<open>
  A float64 quotient of NumPy: dividing by zero raises nothing; it yields not-a-number for
  \<open>0 / 0\<close> and an infinity otherwise. A comparison with not-a-number is false.
\<close>

datatype npfloat = Finite rat | NaN | PosInf | NegInf

definition np_divide :: "rat \<Rightarrow> rat \<Rightarrow> npfloat" where
  "np_divide a b =
     (if b = 0 then (if a = 0 then NaN else if 0 < a then PosInf else NegInf)
      else Finite (a / b))"

definition np_le :: "npfloat \<Rightarrow> rat \<Rightarrow> bool" where
  "np_le v t = (case v of Finite q \<Rightarrow> q \<le> t | NaN \<Rightarrow> False | PosInf \<Rightarrow> False | NegInf \<Rightarrow> True)"

text \<open>\<^verbatim>\<open>areas = (x2 - x1 + 1) * (y2 - y1 + 1)\<close>, one row.\<close>

definition box_area :: "fbox \<Rightarrow> rat" where
  "box_area b = (case b of (x1, y1, x2, y2) \<Rightarrow> (x2 - x1 + 1) * (y2 - y1 + 1))"

text \<open>Lines 72 to 79 for the picked row \<open>a\<close> and one remaining row \<open>b\<close>.\<close>

definition nms_inter :: "fbox \<Rightarrow> fbox \<Rightarrow> rat" where
  "nms_inter a b = (case a of (ax1, ay1, ax2, ay2) \<Rightarrow> case b of (bx1, by1, bx2, by2) \<Rightarrow>
     (let xx1 = max ax1 bx1; yy1 = max ay1 by1;
          xx2 = min ax2 bx2; yy2 = min ay2 by2;
          w = max 0 (xx2 - xx1 + 1); h = max 0 (yy2 - yy1 + 1)
      in w * h))"

text \<open>Line 80: \<^verbatim>\<open>iou = inter / (areas[i] + areas[idxs[1:]] - inter)\<close>, with no test of the divisor.\<close>

definition nms_iou :: "fbox \<Rightarrow> fbox \<Rightarrow> npfloat" where
  "nms_iou a b = (let inter = nms_inter a b in np_divide inter (box_area a + box_area b - inter))"

text \<open>
  \<^verbatim>\<open>np.argsort\<close> is NumPy's, not the script's. The script calls it with the default kind,
  which NumPy documents as not stable: the order of the indices of equal keys is left to the
  library. The sort is therefore a parameter \<open>srt\<close> of the model, and \<open>is_argsort\<close> is what the
  statements assume of it: the result holds every index once, with the keys ascending.
\<close>

definition is_argsort :: "(rat list \<Rightarrow> nat list) \<Rightarrow> bool" where
  "is_argsort srt =
     (\<forall>keys. mset (srt keys) = mset [0..<length keys] \<and> sorted (map (\<lambda>i. keys ! i) (srt keys)))"

text \<open>
  The \<^verbatim>\<open>while len(idxs) > 0\<close> loop: the first index is picked, and of the others those stay
  whose IoU with the picked row is at most the threshold. The result is \<^verbatim>\<open>pick\<close>.
\<close>

fun nms_loop :: "fbox list \<Rightarrow> rat \<Rightarrow> nat list \<Rightarrow> nat list" where
  "nms_loop boxes thr [] = []"
| "nms_loop boxes thr (i # idxs) =
     i # nms_loop boxes thr (filter (\<lambda>j. np_le (nms_iou (boxes ! i) (boxes ! j)) thr) idxs)"

text \<open>
  \<^verbatim>\<open>idxs\<close> before the loop (lines 62 to 65): descending order is the reversed ascending order.
\<close>

definition nms_order ::
  "(rat list \<Rightarrow> nat list) \<Rightarrow> fbox list \<Rightarrow> rat list option \<Rightarrow> nat list" where
  "nms_order srt boxes scores =
     (case scores of None \<Rightarrow> rev (srt (map box_area boxes))
                   | Some s \<Rightarrow> rev (srt s))"

text \<open>
  The whole function. With more scores than boxes the first pass of the loop indexes the
  coordinate arrays with every index of \<^verbatim>\<open>idxs\<close>, and NumPy raises IndexError there.
\<close>

definition non_max_suppression ::
  "(rat list \<Rightarrow> nat list) \<Rightarrow> fbox list \<Rightarrow> rat list option \<Rightarrow> rat \<Rightarrow> error + ibox list" where
  "non_max_suppression srt boxes scores iou_threshold =
     (if length boxes = 0 then Inr []
      else let idxs = nms_order srt boxes scores in
        if list_ex (\<lambda>i. length boxes \<le> i) idxs then Inl IndexError
        else Inr (map (\<lambda>i. astype_int (boxes ! i)) (nms_loop boxes iou_threshold idxs)))"

section \<open>Tracks\<close>

text \<open>
  \<^verbatim>\<open>tracked\<close> is a dictionary from a track id to a dictionary with the keys \<^verbatim>\<open>count\<close>,
  \<^verbatim>\<open>last_xyxy\<close> and \<^verbatim>\<open>misses\<close>. A Python dictionary iterates in insertion order and the
  matching loop breaks ties by that order, so a table is an association list:
  \<open>map_of\<close> reads a key, \<open>AList.update\<close> is \<^verbatim>\<open>d[k] = v\<close> (in place for a key that is present,
  at the end for a new one).
\<close>

record track =
  count :: int
  last_xyxy :: ibox
  misses :: int

type_synonym table = "(int \<times> track) list"

definition STABLE_FRAMES_REQUIRED :: int where
  "STABLE_FRAMES_REQUIRED = 3"

definition MAX_MISSES :: int where
  "MAX_MISSES = 1"

definition NMS_OVERLAP_THRESH :: rat where
  "NMS_OVERLAP_THRESH = 2 / 5"

definition iou_xyxy :: "ibox \<Rightarrow> ibox \<Rightarrow> rat" where
  "iou_xyxy a b = (case a of (ax1, ay1, ax2, ay2) \<Rightarrow> case b of (bx1, by1, bx2, by2) \<Rightarrow>
     (let inter_x1 = max ax1 bx1; inter_y1 = max ay1 by1;
          inter_x2 = min ax2 bx2; inter_y2 = min ay2 by2;
          iw = max 0 (inter_x2 - inter_x1 + 1);
          ih = max 0 (inter_y2 - inter_y1 + 1);
          inter = iw * ih;
          area_a = (ax2 - ax1 + 1) * (ay2 - ay1 + 1);
          area_b = (bx2 - bx1 + 1) * (by2 - by1 + 1);
          union = area_a + area_b - inter
      in if union = 0 then 0 else of_int inter / of_int union))"

text \<open>
  Python's \<^verbatim>\<open>/\<close> on two integers raises ZeroDivisionError for the divisor 0, where the
  quotient of HOL has a value. \<open>iou_xyxy_raising\<close> is \<^verbatim>\<open>iou_xyxy\<close> once more, with that
  exception as a value: it shows what the test \<^verbatim>\<open>if union == 0\<close> is for. Lemma
  \<open>iou_xyxy_never_raises\<close> below proves that the function raises for no pair of boxes and
  returns \<open>iou_xyxy\<close>, which is why the loop can use the function without the exception.
\<close>

definition py_truediv :: "int \<Rightarrow> int \<Rightarrow> error + rat" where
  "py_truediv a b = (if b = 0 then Inl ZeroDivisionError else Inr (of_int a / of_int b))"

definition iou_xyxy_raising :: "ibox \<Rightarrow> ibox \<Rightarrow> error + rat" where
  "iou_xyxy_raising a b = (case a of (ax1, ay1, ax2, ay2) \<Rightarrow> case b of (bx1, by1, bx2, by2) \<Rightarrow>
     (let inter_x1 = max ax1 bx1; inter_y1 = max ay1 by1;
          inter_x2 = min ax2 bx2; inter_y2 = min ay2 by2;
          iw = max 0 (inter_x2 - inter_x1 + 1);
          ih = max 0 (inter_y2 - inter_y1 + 1);
          inter = iw * ih;
          area_a = (ax2 - ax1 + 1) * (ay2 - ay1 + 1);
          area_b = (bx2 - bx1 + 1) * (by2 - by1 + 1);
          union = area_a + area_b - inter
      in if union = 0 then Inr 0 else py_truediv inter union))"

text \<open>
  Lines 151 to 158: the scan of \<^verbatim>\<open>tracked.items()\<close> for one candidate box, from
  \<^verbatim>\<open>best_id = None\<close> and \<^verbatim>\<open>best_iou = 0.0\<close>; a later track replaces the best one only with a
  strictly larger score.
\<close>

definition best_match :: "ibox \<Rightarrow> table \<Rightarrow> int option \<times> rat" where
  "best_match box tracked =
     foldl (\<lambda>(best_id, best_iou) (tid, info).
              let score = iou_xyxy box (last_xyxy info)
              in if best_iou < score then (Some tid, score) else (best_id, best_iou))
           (None, 0) tracked"

text \<open>
  The variables of one pass of the main loop. On a match the source fetches the dictionary
  \<^verbatim>\<open>tracked[best_id]\<close>, changes it in place and stores the same object in \<^verbatim>\<open>new_tracked\<close>;
  the object stays in \<^verbatim>\<open>tracked\<close>, so the candidates that follow in the same frame are scored
  against the changed entry. Every object of a table sits under one key, so the state below,
  which writes the changed value to both tables, holds the values of the source at every
  point where the source reads them.
\<close>

record assoc_state =
  tracked :: table
  new_tracked :: table
  used_track_ids :: "int set"
  next_track_id :: int

text \<open>
  Lines 149 to 171 for one candidate. \<^verbatim>\<open>tracked[best_id]\<close> cannot raise: \<^verbatim>\<open>best_id\<close> is a key
  met by the scan (lemma \<open>best_match_key\<close> below), and the branch for a missing key leaves
  the state as it is.
\<close>

definition associate :: "assoc_state \<Rightarrow> ibox \<Rightarrow> assoc_state" where
  "associate s box =
     (case best_match box (tracked s) of (best_id, best_iou) \<Rightarrow>
        if 3 / 10 < best_iou \<and> best_id \<noteq> None then
          (case map_of (tracked s) (the best_id) of
             None \<Rightarrow> s
           | Some info \<Rightarrow>
               let info' = info\<lparr>count := count info + 1, last_xyxy := box, misses := 0\<rparr>
               in s\<lparr>tracked := AList.update (the best_id) info' (tracked s),
                     new_tracked := AList.update (the best_id) info' (new_tracked s),
                     used_track_ids := insert (the best_id) (used_track_ids s)\<rparr>)
        else
          s\<lparr>new_tracked :=
               AList.update (next_track_id s) \<lparr>count = 1, last_xyxy = box, misses = 0\<rparr>
                 (new_tracked s),
             next_track_id := next_track_id s + 1\<rparr>)"

text \<open>Lines 174 to 180 for one entry of \<^verbatim>\<open>tracked\<close>.\<close>

definition age_one :: "int set \<Rightarrow> table \<Rightarrow> int \<times> track \<Rightarrow> table" where
  "age_one used new entry = (case entry of (tid, info) \<Rightarrow>
     if tid \<notin> used then
       (let info' = info\<lparr>misses := misses info + 1\<rparr>
        in if misses info' \<le> MAX_MISSES then AList.update tid info' new else new)
     else new)"

definition age_tracks :: "assoc_state \<Rightarrow> table" where
  "age_tracks s = foldl (age_one (used_track_ids s)) (new_tracked s) (tracked s)"

text \<open>
  Lines 146 to 182: the table and the id counter after one frame, from the table and the
  counter before it and the boxes that \<^verbatim>\<open>non_max_suppression\<close> returned.
\<close>

definition update_tracks :: "table \<times> int \<Rightarrow> ibox list \<Rightarrow> table \<times> int" where
  "update_tracks st boxes =
     (let s = foldl associate
                \<lparr>tracked = fst st, new_tracked = [], used_track_ids = {},
                 next_track_id = snd st\<rparr> boxes
      in (age_tracks s, next_track_id s))"

text \<open>Lines 140 to 182: one frame, from the detector's rectangles.\<close>

definition process_frame ::
  "(rat list \<Rightarrow> nat list) \<Rightarrow> table \<times> int \<Rightarrow> rect list \<Rightarrow> error + table \<times> int" where
  "process_frame srt st detections =
     (case non_max_suppression srt (map (to_float \<circ> rect_to_xyxy) detections) None NMS_OVERLAP_THRESH of
        Inl e \<Rightarrow> Inl e
      | Inr boxes_xyxy \<Rightarrow> Inr (update_tracks st boxes_xyxy))"

text \<open>A capture session: the frames in order, from the empty table and the counter 0.\<close>

definition session :: "ibox list list \<Rightarrow> table \<times> int" where
  "session frames = foldl update_tracks ([], 0) frames"

fun run_frames ::
  "(rat list \<Rightarrow> nat list) \<Rightarrow> table \<times> int \<Rightarrow> rect list list \<Rightarrow> error + table \<times> int" where
  "run_frames srt st [] = Inr st"
| "run_frames srt st (d # ds) =
     (case process_frame srt st d of Inl e \<Rightarrow> Inl e | Inr st' \<Rightarrow> run_frames srt st' ds)"

text \<open>Lines 188 and 210: the test that draws a track as stable and that saves its crop.\<close>

definition is_stable :: "track \<Rightarrow> bool" where
  "is_stable info = (STABLE_FRAMES_REQUIRED \<le> count info)"

definition stable_tracks :: "table \<Rightarrow> table" where
  "stable_tracks t = filter (\<lambda>(tid, info). is_stable info) t"

section \<open>Notions used in the statements\<close>

text \<open>
  These definitions are not in the source; they name parts of it. \<open>scores_fit\<close> says that the
  optional scores, if given, are one per box. \<open>int_area\<close> and \<open>int_inter\<close> are the two integers
  that \<^verbatim>\<open>iou_xyxy\<close> divides. \<open>nms_picks\<close> is the value of \<^verbatim>\<open>pick\<close> when the loop ends.
  \<open>argsort_by_insertion\<close> is one sort that meets \<open>is_argsort\<close>; the examples are run with it, on
  keys that are all different, where every such sort returns the same indices.
  \<open>whole_box\<close> says that the four coordinates of a float row are whole numbers.
  \<open>match_step\<close> is the body of the scan of \<open>best_match\<close>, \<open>matched_info\<close> and \<open>new_info\<close> are the
  track that a match and a new candidate write, and \<open>associate_all\<close> is the state after the
  candidates of one frame. \<open>table_ok\<close> says that a table has one entry per id and that every id
  lies below the counter.
\<close>

definition scores_fit :: "'a list \<Rightarrow> rat list option \<Rightarrow> bool" where
  "scores_fit boxes scores = (case scores of None \<Rightarrow> True | Some s \<Rightarrow> length s = length boxes)"

definition int_area :: "ibox \<Rightarrow> int" where
  "int_area a = (case a of (x1, y1, x2, y2) \<Rightarrow> (x2 - x1 + 1) * (y2 - y1 + 1))"

definition int_inter :: "ibox \<Rightarrow> ibox \<Rightarrow> int" where
  "int_inter a b = (case a of (ax1, ay1, ax2, ay2) \<Rightarrow> case b of (bx1, by1, bx2, by2) \<Rightarrow>
     max 0 (min ax2 bx2 - max ax1 bx1 + 1) * max 0 (min ay2 by2 - max ay1 by1 + 1))"

definition nms_picks ::
  "(rat list \<Rightarrow> nat list) \<Rightarrow> fbox list \<Rightarrow> rat list option \<Rightarrow> rat \<Rightarrow> nat list" where
  "nms_picks srt boxes scores thr = nms_loop boxes thr (nms_order srt boxes scores)"

definition argsort_by_insertion :: "rat list \<Rightarrow> nat list" where
  "argsort_by_insertion keys = sort_key (\<lambda>i. keys ! i) [0..<length keys]"

definition is_whole :: "rat \<Rightarrow> bool" where
  "is_whole r = (of_int \<lfloor>r\<rfloor> = r)"

definition whole_box :: "fbox \<Rightarrow> bool" where
  "whole_box b = (case b of (x1, y1, x2, y2) \<Rightarrow> is_whole x1 \<and> is_whole y1 \<and> is_whole x2 \<and> is_whole y2)"

definition match_step :: "ibox \<Rightarrow> int option \<times> rat \<Rightarrow> int \<times> track \<Rightarrow> int option \<times> rat" where
  "match_step box acc entry = (case acc of (best_id, best_iou) \<Rightarrow> case entry of (tid, info) \<Rightarrow>
      let score = iou_xyxy box (last_xyxy info)
      in if best_iou < score then (Some tid, score) else (best_id, best_iou))"

definition associate_all :: "table \<times> int \<Rightarrow> ibox list \<Rightarrow> assoc_state" where
  "associate_all st boxes =
     foldl associate \<lparr>tracked = fst st, new_tracked = [], used_track_ids = {},
                      next_track_id = snd st\<rparr> boxes"

definition matched_info :: "track \<Rightarrow> ibox \<Rightarrow> track" where
  "matched_info info box = info\<lparr>count := count info + 1, last_xyxy := box, misses := 0\<rparr>"

definition new_info :: "ibox \<Rightarrow> track" where
  "new_info box = \<lparr>count = 1, last_xyxy = box, misses = 0\<rparr>"

definition table_ok :: "table \<times> int \<Rightarrow> bool" where
  "table_ok st = (distinct (map fst (fst st)) \<and> 0 \<le> snd st
                   \<and> (\<forall>k \<in> fst ` set (fst st). 0 \<le> k \<and> k < snd st))"

section \<open>Facts about the definitions\<close>

lemma nms_loop_subset: "set (nms_loop boxes thr idxs) \<subseteq> set idxs"
proof (induction boxes thr idxs rule: nms_loop.induct)
  case (1 boxes thr)
  show ?case by simp
next
  case (2 boxes thr i idxs)
  then show ?case by auto
qed

lemma nms_loop_distinct: "distinct idxs \<Longrightarrow> distinct (nms_loop boxes thr idxs)"
proof (induction boxes thr idxs rule: nms_loop.induct)
  case (1 boxes thr)
  show ?case by simp
next
  case (2 boxes thr i idxs)
  have "i \<notin> set (nms_loop boxes thr (filter (\<lambda>j. np_le (nms_iou (boxes ! i) (boxes ! j)) thr) idxs))"
    using nms_loop_subset [of boxes thr "filter (\<lambda>j. np_le (nms_iou (boxes ! i) (boxes ! j)) thr) idxs"] "2.prems"
    by auto
  with 2 show ?case by simp
qed

lemma nms_loop_pairwise:
  "sorted_wrt (\<lambda>i j. np_le (nms_iou (boxes ! i) (boxes ! j)) thr) (nms_loop boxes thr idxs)"
proof (induction boxes thr idxs rule: nms_loop.induct)
  case (1 boxes thr)
  show ?case by simp
next
  case (2 boxes thr i idxs)
  have "\<forall>j \<in> set (nms_loop boxes thr (filter (\<lambda>j. np_le (nms_iou (boxes ! i) (boxes ! j)) thr) idxs)).
          np_le (nms_iou (boxes ! i) (boxes ! j)) thr"
    using nms_loop_subset [of boxes thr "filter (\<lambda>j. np_le (nms_iou (boxes ! i) (boxes ! j)) thr) idxs"]
    by auto
  moreover have "sorted_wrt (\<lambda>i j. np_le (nms_iou (boxes ! i) (boxes ! j)) thr)
      (nms_loop boxes thr (filter (\<lambda>j. np_le (nms_iou (boxes ! i) (boxes ! j)) thr) idxs))"
    by (rule "2.IH")
  ultimately show ?case
    unfolding nms_loop.simps sorted_wrt.simps by blast
qed

lemma nms_loop_keeps_all:
  "distinct idxs \<Longrightarrow>
   (\<forall>i \<in> set idxs. \<forall>j \<in> set idxs. i \<noteq> j \<longrightarrow> np_le (nms_iou (boxes ! i) (boxes ! j)) thr) \<Longrightarrow>
   nms_loop boxes thr idxs = idxs"
proof (induction idxs)
  case Nil
  show ?case by simp
next
  case (Cons i idxs)
  have "\<forall>j \<in> set idxs. np_le (nms_iou (boxes ! i) (boxes ! j)) thr"
    using Cons.prems by auto
  then have "filter (\<lambda>j. np_le (nms_iou (boxes ! i) (boxes ! j)) thr) idxs = idxs"
    by (simp add: filter_id_conv)
  moreover have "nms_loop boxes thr idxs = idxs"
  proof (rule Cons.IH)
    show "distinct idxs" using Cons.prems(1) by simp
    show "\<forall>i\<in>set idxs. \<forall>j\<in>set idxs. i \<noteq> j \<longrightarrow> np_le (nms_iou (boxes ! i) (boxes ! j)) thr"
      using Cons.prems(2) by simp
  qed
  ultimately show ?case by simp
qed

lemma nms_inter_commute: "nms_inter a b = nms_inter b a"
  by (cases a; cases b) (simp add: nms_inter_def max.commute min.commute)

lemma nms_iou_commute: "nms_iou a b = nms_iou b a"
  by (simp add: nms_iou_def nms_inter_commute [of a b] add.commute)

lemma trunc_int_of_int: "trunc_int (of_int k) = k"
  by (simp add: trunc_int_def)

lemma astype_int_to_float: "astype_int (to_float b) = b"
  by (cases b) (simp add: astype_int_def to_float_def trunc_int_of_int)

lemma iou_xyxy_alt:
  "iou_xyxy a b =
     (if int_area a + int_area b - int_inter a b = 0 then 0
      else of_int (int_inter a b) / of_int (int_area a + int_area b - int_inter a b))"
  by (cases a; cases b) (simp add: iou_xyxy_def int_area_def int_inter_def Let_def)

lemma box_area_to_float: "box_area (to_float a) = of_int (int_area a)"
  by (cases a) (simp add: box_area_def to_float_def int_area_def)

lemma nms_inter_to_float: "nms_inter (to_float a) (to_float b) = of_int (int_inter a b)"
  by (cases a; cases b)
     (simp add: nms_inter_def to_float_def int_inter_def Let_def of_int_max of_int_min)

lemma int_inter_nonneg: "0 \<le> int_inter a b"
  by (cases a; cases b) (simp add: int_inter_def)

lemma nms_iou_to_float:
  "nms_iou (to_float a) (to_float b) =
     (if int_area a + int_area b - int_inter a b = 0
      then (if int_inter a b = 0 then NaN else PosInf)
      else Finite (iou_xyxy a b))"
proof -
  have u: "box_area (to_float a) + box_area (to_float b) - nms_inter (to_float a) (to_float b)
           = of_int (int_area a + int_area b - int_inter a b)"
    by (simp add: box_area_to_float nms_inter_to_float)
  show ?thesis
    unfolding nms_iou_def Let_def u
    using int_inter_nonneg [of a b]
    by (simp add: np_divide_def nms_inter_to_float iou_xyxy_alt)
qed

lemma nms_iou_integer:
  "np_le (nms_iou (to_float a) (to_float b)) thr \<Longrightarrow> iou_xyxy a b \<le> thr"
  by (simp add: nms_iou_to_float np_le_def split: if_splits)

lemma scores_fit_map: "scores_fit (map f bs) scores = scores_fit bs scores"
  by (simp add: scores_fit_def split: option.splits)

lemma mset_nths_subset:
  assumes "distinct picks" and "set picks \<subseteq> {..<length bs}"
  shows "mset (map (\<lambda>i. bs ! i) picks) \<subseteq># mset bs"
proof -
  have "mset picks = mset_set (set picks)"
    using assms(1) by (simp add: mset_set_set)
  also have "\<dots> \<subseteq># mset_set {..<length bs}"
    using assms(2) by (simp add: subset_imp_msubset_mset_set)
  also have "mset_set {..<length bs} = mset [0..<length bs]"
    by (metis atLeast_upt mset_set_set distinct_upt)
  finally have a: "image_mset (\<lambda>i. bs ! i) (mset picks) \<subseteq># image_mset (\<lambda>i. bs ! i) (mset [0..<length bs])"
    by (rule image_mset_subseteq_mono)
  have b: "image_mset (\<lambda>i. bs ! i) (mset [0..<length bs]) = mset bs"
    unfolding mset_map [symmetric] by (simp only: map_nth)
  have c: "image_mset (\<lambda>i. bs ! i) (mset picks) = mset (map (\<lambda>i. bs ! i) picks)"
    by (simp only: mset_map)
  show ?thesis using a unfolding b c .
qed

lemma trunc_int_whole: "(of_int (trunc_int r) = r) = is_whole r"
proof (cases "0 \<le> r")
  case True
  then show ?thesis by (simp add: trunc_int_def is_whole_def)
next
  case False
  have "(of_int \<lceil>r\<rceil> = r) = (of_int \<lfloor>r\<rfloor> = r)"
    by (metis ceiling_of_int floor_of_int)
  with False show ?thesis by (simp add: trunc_int_def is_whole_def)
qed

lemma to_float_astype_int: "(to_float (astype_int b) = b) = whole_box b"
  by (cases b) (simp add: to_float_def astype_int_def whole_box_def trunc_int_whole)

lemma mset_map_nth_perm:
  assumes "mset idxs = mset [0..<length xs]"
  shows "mset (map (\<lambda>i. xs ! i) idxs) = mset xs"
proof -
  have "mset (map (\<lambda>i. xs ! i) idxs) = image_mset (\<lambda>i. xs ! i) (mset idxs)"
    by (simp only: mset_map)
  also have "\<dots> = image_mset (\<lambda>i. xs ! i) (mset [0..<length xs])"
    by (simp only: assms)
  also have "\<dots> = mset (map (\<lambda>i. xs ! i) [0..<length xs])"
    by (simp only: mset_map)
  also have "\<dots> = mset xs"
    by (simp only: map_nth)
  finally show ?thesis .
qed

lemma argsort_by_insertion_ok: "is_argsort argsort_by_insertion"
  by (simp add: is_argsort_def argsort_by_insertion_def)

lemma argsort_mset: "is_argsort srt \<Longrightarrow> mset (srt ks) = mset [0..<length ks]"
  by (simp only: is_argsort_def)

lemma argsort_sorted: "is_argsort srt \<Longrightarrow> sorted (map (\<lambda>i. ks ! i) (srt ks))"
  by (simp only: is_argsort_def)

lemma argsort_set: "is_argsort srt \<Longrightarrow> set (srt ks) = {..<length ks}"
proof -
  assume "is_argsort srt"
  then have "set (srt ks) = set [0..<length ks]"
    using argsort_mset [of srt ks] by (rule_tac mset_eq_setD)
  then show ?thesis by (simp add: atLeast0LessThan)
qed

lemma argsort_distinct: "is_argsort srt \<Longrightarrow> distinct (srt ks)"
proof -
  assume "is_argsort srt"
  then have "distinct (srt ks) = distinct [0..<length ks]"
    using argsort_mset [of srt ks] by (rule_tac mset_eq_imp_distinct_iff)
  then show ?thesis by simp
qed

lemma argsort_length: "is_argsort srt \<Longrightarrow> length (srt ks) = length ks"
proof -
  assume "is_argsort srt"
  then have "length (srt ks) = length [0..<length ks]"
    using argsort_mset [of srt ks] by (rule_tac mset_eq_length)
  then show ?thesis by simp
qed

lemma argsort_two:
  assumes "is_argsort srt"
  shows "srt [a, b] = [0, 1] \<or> srt [a, b] = [1, 0]"
proof -
  have len: "length (srt [a, b]) = 2"
    using argsort_length [OF assms, of "[a, b]"] by simp
  then obtain x y where xy: "srt [a, b] = [x, y]"
    by (auto simp: length_Suc_conv numeral_2_eq_2)
  have "set [x, y] = {..<2}" "distinct [x, y]"
    using argsort_set [OF assms, of "[a, b]"] argsort_distinct [OF assms, of "[a, b]"]
    by (simp_all add: xy)
  then have "(x = 0 \<and> y = 1) \<or> (x = 1 \<and> y = 0)"
    by (auto simp: lessThan_Suc numeral_2_eq_2 insert_eq_iff doubleton_eq_iff)
  then show ?thesis by (auto simp: xy)
qed

lemma argsort_two_less:
  assumes "is_argsort srt" and "a < b"
  shows "srt [a, b] = [0, 1]"
proof -
  have "srt [a, b] \<noteq> [1, 0]"
  proof
    assume "srt [a, b] = [1, 0]"
    then have "sorted [b, a]"
      using argsort_sorted [OF assms(1), of "[a, b]"] by simp
    then show False using assms(2) by simp
  qed
  then show ?thesis using argsort_two [OF assms(1), of a b] by simp
qed

lemma argsort_two_greater:
  assumes "is_argsort srt" and "b < a"
  shows "srt [a, b] = [1, 0]"
proof -
  have "srt [a, b] \<noteq> [0, 1]"
  proof
    assume "srt [a, b] = [0, 1]"
    then have "sorted [a, b]"
      using argsort_sorted [OF assms(1), of "[a, b]"] by simp
    then show False using assms(2) by simp
  qed
  then show ?thesis using argsort_two [OF assms(1), of a b] by simp
qed

lemma nms_order_set:
  "is_argsort srt \<Longrightarrow> scores_fit boxes scores \<Longrightarrow>
   set (nms_order srt boxes scores) = {..<length boxes}"
  by (cases scores) (simp_all add: nms_order_def scores_fit_def argsort_set)

lemma nms_order_distinct: "is_argsort srt \<Longrightarrow> distinct (nms_order srt boxes scores)"
  by (cases scores) (simp_all add: nms_order_def argsort_distinct)

lemma nms_order_mset:
  "is_argsort srt \<Longrightarrow> scores_fit boxes scores \<Longrightarrow>
   mset (nms_order srt boxes scores) = mset [0..<length boxes]"
  by (cases scores) (simp_all only: nms_order_def scores_fit_def option.case mset_rev argsort_mset length_map)

lemma nms_order_by_area:
  assumes "is_argsort srt"
  shows "sorted_wrt (\<lambda>i j. box_area (boxes ! j) \<le> box_area (boxes ! i)) (nms_order srt boxes None)"
proof -
  have r: "set (srt (map box_area boxes)) = {..<length boxes}"
    using argsort_set [OF assms, of "map box_area boxes"] by simp
  have "sorted_wrt (\<lambda>i j. map box_area boxes ! i \<le> map box_area boxes ! j) (srt (map box_area boxes))"
    using argsort_sorted [OF assms, of "map box_area boxes"] by (simp only: sorted_map sorted_wrt_map)
  then have "sorted_wrt (\<lambda>i j. box_area (boxes ! i) \<le> box_area (boxes ! j)) (srt (map box_area boxes))"
  proof (rule sorted_wrt_mono_rel [rotated])
    fix i j
    assume "i \<in> set (srt (map box_area boxes))" "j \<in> set (srt (map box_area boxes))"
      and "map box_area boxes ! i \<le> map box_area boxes ! j"
    then show "box_area (boxes ! i) \<le> box_area (boxes ! j)"
      using r by simp
  qed
  then show ?thesis
    by (simp add: nms_order_def sorted_wrt_rev)
qed

lemma nms_result:
  assumes "is_argsort srt" and "scores_fit boxes scores"
  shows "non_max_suppression srt boxes scores thr =
     Inr (map (\<lambda>i. astype_int (boxes ! i)) (nms_loop boxes thr (nms_order srt boxes scores)))"
proof -
  have "\<not> list_ex (\<lambda>i. length boxes \<le> i) (nms_order srt boxes scores)"
    using nms_order_set [OF assms] by (auto simp: list_ex_iff)
  moreover have "boxes = [] \<Longrightarrow> nms_order srt boxes scores = []"
    using nms_order_set [OF assms] by simp
  ultimately show ?thesis
    by (simp add: non_max_suppression_def Let_def)
qed

lemma nms_picks_distinct: "is_argsort srt \<Longrightarrow> distinct (nms_picks srt boxes scores thr)"
  unfolding nms_picks_def by (rule nms_loop_distinct) (rule nms_order_distinct)

lemma nms_picks_range:
  "is_argsort srt \<Longrightarrow> scores_fit boxes scores \<Longrightarrow>
   set (nms_picks srt boxes scores thr) \<subseteq> {..<length boxes}"
  unfolding nms_picks_def
  using nms_loop_subset [of boxes thr "nms_order srt boxes scores"] nms_order_set [of srt boxes scores]
  by simp

lemma nms_picks_pairwise:
  "sorted_wrt (\<lambda>i j. np_le (nms_iou (boxes ! i) (boxes ! j)) thr) (nms_picks srt boxes scores thr)"
  unfolding nms_picks_def by (rule nms_loop_pairwise)

lemma nms_result_picks:
  "is_argsort srt \<Longrightarrow> scores_fit boxes scores \<Longrightarrow>
   non_max_suppression srt boxes scores thr =
     Inr (map (\<lambda>i. astype_int (boxes ! i)) (nms_picks srt boxes scores thr))"
  by (simp add: nms_result nms_picks_def)

lemma nms_result_integer:
  assumes "is_argsort srt" and "scores_fit bs scores"
  shows "non_max_suppression srt (map to_float bs) scores thr =
           Inr (map (\<lambda>i. bs ! i) (nms_picks srt (map to_float bs) scores thr))"
proof -
  have fit: "scores_fit (map to_float bs) scores"
    using assms(2) by (simp add: scores_fit_map)
  have "\<forall>i \<in> set (nms_picks srt (map to_float bs) scores thr). i < length bs"
    using nms_picks_range [OF assms(1) fit, of thr] by auto
  then have "map (\<lambda>i. astype_int (map to_float bs ! i)) (nms_picks srt (map to_float bs) scores thr)
           = map (\<lambda>i. bs ! i) (nms_picks srt (map to_float bs) scores thr)"
    by (simp add: astype_int_to_float)
  then show ?thesis
    using nms_result_picks [OF assms(1) fit, of thr] by simp
qed

lemma nms_order_single:
  assumes "is_argsort srt" and "scores_fit [b] scores"
  shows "nms_order srt [b] scores = [0]"
proof -
  have "set (nms_order srt [b] scores) = {0}" "distinct (nms_order srt [b] scores)"
    using nms_order_set [OF assms] nms_order_distinct [OF assms(1), of "[b]" scores] by auto
  then have "length (nms_order srt [b] scores) = 1"
    by (metis distinct_card card.empty card_insert_disjoint empty_iff finite.emptyI One_nat_def)
  with \<open>set (nms_order srt [b] scores) = {0}\<close> show ?thesis
    by (cases "nms_order srt [b] scores") auto
qed

lemma nms_two_boxes:
  assumes "is_argsort srt" and "box_area b1 < box_area b2"
  shows "non_max_suppression srt [b1, b2] None thr =
           Inr (map (\<lambda>i. astype_int ([b1, b2] ! i)) (nms_loop [b1, b2] thr [1, 0]))"
proof -
  have fit: "scores_fit [b1, b2] None" by (simp add: scores_fit_def)
  have "nms_order srt [b1, b2] None = [1, 0]"
    using argsort_two_less [OF assms(1) assms(2)]
    by (simp add: nms_order_def)
  then show ?thesis
    using nms_result [OF assms(1) fit, of thr] by simp
qed

lemma nms_two_boxes_rev:
  assumes "is_argsort srt" and "box_area b2 < box_area b1"
  shows "non_max_suppression srt [b1, b2] None thr =
           Inr (map (\<lambda>i. astype_int ([b1, b2] ! i)) (nms_loop [b1, b2] thr [0, 1]))"
proof -
  have fit: "scores_fit [b1, b2] None" by (simp add: scores_fit_def)
  have "nms_order srt [b1, b2] None = [0, 1]"
    using argsort_two_greater [OF assms(1) assms(2)]
    by (simp add: nms_order_def)
  then show ?thesis
    using nms_result [OF assms(1) fit, of thr] by simp
qed

lemma nms_one_box:
  assumes "is_argsort srt"
  shows "non_max_suppression srt [b] None thr = Inr [astype_int b]"
proof -
  have fit: "scores_fit [b] None" by (simp add: scores_fit_def)
  show ?thesis
    using nms_result [OF assms fit, of thr] nms_order_single [OF assms fit] by simp
qed

text \<open>
  What can be said of claim C2 for every sort that meets \<open>is_argsort\<close>: without scores the
  boxes are visited by area, largest first (\<open>nms_order_by_area\<close> above). The order of boxes of
  equal area is the order in which \<^verbatim>\<open>np.argsort\<close> leaves equal keys, which the script does not
  fix. Of the two boxes of area \<open>1681\<close> of the claim's example exactly one is kept; which one
  depends on that order.
\<close>

lemma scenario_B_keeps_one_box:
  assumes "is_argsort srt"
  shows "non_max_suppression srt [(10, 10, 50, 50), (12, 12, 52, 52)] None (2 / 5) = Inr [(10, 10, 50, 50)]
       \<or> non_max_suppression srt [(10, 10, 50, 50), (12, 12, 52, 52)] None (2 / 5) = Inr [(12, 12, 52, 52)]"
proof -
  have fit: "scores_fit [(10, 10, 50, 50), (12, 12, 52, 52) :: fbox] None" by (simp add: scores_fit_def)
  have a: "map (\<lambda>i. astype_int ([(10, 10, 50, 50), (12, 12, 52, 52)] ! i))
             (nms_loop [(10, 10, 50, 50), (12, 12, 52, 52)] (2 / 5) [0, 1]) = [(10, 10, 50, 50)]"
    by code_simp
  have b: "map (\<lambda>i. astype_int ([(10, 10, 50, 50), (12, 12, 52, 52)] ! i))
             (nms_loop [(10, 10, 50, 50), (12, 12, 52, 52)] (2 / 5) [1, 0]) = [(12, 12, 52, 52)]"
    by code_simp
  have "nms_order srt [(10, 10, 50, 50), (12, 12, 52, 52)] None = [1, 0]
      \<or> nms_order srt [(10, 10, 50, 50), (12, 12, 52, 52)] None = [0, 1]"
    using argsort_two [OF assms, of "box_area (10, 10, 50, 50)" "box_area (12, 12, 52, 52)"]
    by (auto simp: nms_order_def)
  then show ?thesis
    using nms_result [OF assms fit, of "2 / 5"] a b by auto
qed

lemma best_match_snoc:
  "best_match box (t @ [e]) = match_step box (best_match box t) e"
  by (cases e) (simp add: best_match_def match_step_def split: prod.splits)

lemma best_match_Nil: "best_match box [] = (None, 0)"
  by (simp add: best_match_def)

lemma best_match_bound:
  "(tid, info) \<in> set t \<Longrightarrow> iou_xyxy box (last_xyxy info) \<le> snd (best_match box t)"
proof (induction t rule: rev_induct)
  case Nil
  then show ?case by simp
next
  case (snoc e t)
  obtain bid biou where b: "best_match box t = (bid, biou)" by (cases "best_match box t")
  obtain k i where e: "e = (k, i)" by (cases e)
  show ?case
  proof (cases "(tid, info) \<in> set t")
    case True
    then have "iou_xyxy box (last_xyxy info) \<le> biou" using snoc.IH b by simp
    then show ?thesis
      by (simp add: best_match_snoc b e match_step_def Let_def)
  next
    case False
    then have "e = (tid, info)" using snoc.prems by simp
    then show ?thesis
      by (simp add: best_match_snoc b match_step_def Let_def)
  qed
qed

lemma best_match_found:
  "best_match box t = (best_id, best_iou) \<Longrightarrow>
     (case best_id of
        None \<Rightarrow> best_iou = 0
      | Some tid \<Rightarrow> 0 < best_iou \<and> (\<exists>info. (tid, info) \<in> set t \<and> iou_xyxy box (last_xyxy info) = best_iou))"
proof (induction t arbitrary: best_id best_iou rule: rev_induct)
  case Nil
  then show ?case by (simp add: best_match_Nil)
next
  case (snoc e t)
  obtain bid biou where b: "best_match box t = (bid, biou)" by (cases "best_match box t")
  obtain k i where e: "e = (k, i)" by (cases e)
  have ih: "case bid of None \<Rightarrow> biou = 0
      | Some tid \<Rightarrow> 0 < biou \<and> (\<exists>info. (tid, info) \<in> set t \<and> iou_xyxy box (last_xyxy info) = biou)"
    using snoc.IH [OF b] .
  have nonneg: "0 \<le> biou" using ih by (cases bid) auto
  show ?case
  proof (cases "biou < iou_xyxy box (last_xyxy i)")
    case True
    then have "best_id = Some k" "best_iou = iou_xyxy box (last_xyxy i)"
      using snoc.prems by (simp_all add: best_match_snoc b e match_step_def Let_def)
    then show ?thesis using True nonneg e by auto
  next
    case False
    then have "best_id = bid" "best_iou = biou"
      using snoc.prems by (simp_all add: best_match_snoc b e match_step_def Let_def)
    then show ?thesis using ih by (cases bid) auto
  qed
qed

lemma best_match_key:
  "best_match box t = (Some tid, best_iou) \<Longrightarrow> tid \<in> fst ` set t"
  using best_match_found [of box t "Some tid" best_iou] by force

lemma best_match_lookup:
  assumes "distinct (map fst t)" and "best_match box t = (Some tid, best_iou)"
  shows "\<exists>info. map_of t tid = Some info \<and> iou_xyxy box (last_xyxy info) = best_iou"
proof -
  obtain info where "(tid, info) \<in> set t" "iou_xyxy box (last_xyxy info) = best_iou"
    using best_match_found [OF assms(2)] by auto
  then show ?thesis using assms(1) by auto
qed

lemma associate_match:
  assumes "best_match box (tracked s) = (Some tid, best_iou)" and "3 / 10 < best_iou"
    and "map_of (tracked s) tid = Some info"
  shows "associate s box =
           s\<lparr>tracked := AList.update tid (matched_info info box) (tracked s),
             new_tracked := AList.update tid (matched_info info box) (new_tracked s),
             used_track_ids := insert tid (used_track_ids s)\<rparr>"
  using assms by (simp add: associate_def matched_info_def Let_def)

lemma associate_new:
  assumes "best_match box (tracked s) = (best_id, best_iou)" and "best_iou \<le> 3 / 10"
  shows "associate s box =
           s\<lparr>new_tracked := AList.update (next_track_id s) (new_info box) (new_tracked s),
             next_track_id := next_track_id s + 1\<rparr>"
  using assms by (simp add: associate_def new_info_def)

lemma associate_cases:
  obtains (match) tid best_iou info where
      "best_match box (tracked s) = (Some tid, best_iou)" "3 / 10 < best_iou"
      "map_of (tracked s) tid = Some info"
      "associate s box =
           s\<lparr>tracked := AList.update tid (matched_info info box) (tracked s),
             new_tracked := AList.update tid (matched_info info box) (new_tracked s),
             used_track_ids := insert tid (used_track_ids s)\<rparr>"
  | (new) best_id best_iou where
      "best_match box (tracked s) = (best_id, best_iou)" "best_iou \<le> 3 / 10"
      "associate s box =
           s\<lparr>new_tracked := AList.update (next_track_id s) (new_info box) (new_tracked s),
             next_track_id := next_track_id s + 1\<rparr>"
proof -
  obtain bid biou where b: "best_match box (tracked s) = (bid, biou)"
    by (cases "best_match box (tracked s)")
  show thesis
  proof (cases "3 / 10 < biou")
    case True
    have "bid \<noteq> None"
      using best_match_found [OF b] True by (cases bid) auto
    then obtain tid where tid: "bid = Some tid" by auto
    have "tid \<in> fst ` set (tracked s)"
      using best_match_key b tid by simp
    then obtain info where info: "map_of (tracked s) tid = Some info"
      by (metis domD dom_map_of_conv_image_fst)
    show thesis
      using match [of tid biou info] associate_match [of box s tid biou info] b tid True info
      by simp
  next
    case False
    then show thesis
      using new [of bid biou] associate_new [of box s bid biou] b by simp
  qed
qed

lemma associate_keys: "map fst (tracked (associate s box)) = map fst (tracked s)"
proof (cases rule: associate_cases [of box s])
  case (match tid best_iou info)
  have "tid \<in> fst ` set (tracked s)"
    using match(3) by (metis domI dom_map_of_conv_image_fst)
  then show ?thesis
    by (simp add: match(4) update_keys)
next
  case (new best_id best_iou)
  then show ?thesis by simp
qed

lemma associate_used:
  "used_track_ids s \<subseteq> used_track_ids (associate s box)
   \<and> used_track_ids (associate s box) \<subseteq> used_track_ids s \<union> fst ` set (tracked s)"
proof (cases rule: associate_cases [of box s])
  case (match tid best_iou info)
  have "tid \<in> fst ` set (tracked s)"
    using match(3) by (metis domI dom_map_of_conv_image_fst)
  then show ?thesis
    by (auto simp: match(4))
next
  case (new best_id best_iou)
  then show ?thesis by simp
qed

lemma associate_unused:
  "tid \<notin> used_track_ids (associate s box) \<Longrightarrow>
   map_of (tracked (associate s box)) tid = map_of (tracked s) tid"
proof (cases rule: associate_cases [of box s])
  case (match k best_iou info)
  assume "tid \<notin> used_track_ids (associate s box)"
  then have "tid \<noteq> k" by (auto simp: match(4))
  then show ?thesis
    by (simp add: match(4) update_conv')
next
  case (new best_id best_iou)
  then show ?thesis by simp
qed

lemma associate_next: "next_track_id s \<le> next_track_id (associate s box)"
  by (cases rule: associate_cases [of box s]) simp_all




lemma associate_new_misses:
  "(\<forall>e \<in> set (new_tracked s). misses (snd e) = 0) \<Longrightarrow>
   (\<forall>e \<in> set (new_tracked (associate s box)). misses (snd e) = 0)"
proof -
  have upd: "(\<forall>e \<in> set al. misses (snd e) = 0) \<Longrightarrow> misses v = 0 \<Longrightarrow>
             (\<forall>e \<in> set (AList.update k v al). misses (snd e) = 0)" for k :: int and v :: track and al
    by (induction al) auto
  assume a: "\<forall>e \<in> set (new_tracked s). misses (snd e) = 0"
  show ?thesis
  proof (cases rule: associate_cases [of box s])
    case (match tid best_iou info)
    show ?thesis
      unfolding match(4) using upd [OF a, of "matched_info info box" tid]
      by (simp add: matched_info_def)
  next
    case (new best_id best_iou)
    show ?thesis
      unfolding new(3) using upd [OF a, of "new_info box" "next_track_id s"]
      by (simp add: new_info_def)
  qed
qed

lemma foldl_associate_keys: "map fst (tracked (foldl associate s boxes)) = map fst (tracked s)"
  by (induction boxes arbitrary: s) (simp_all add: associate_keys)

lemma foldl_associate_used:
  "used_track_ids s \<subseteq> used_track_ids (foldl associate s boxes)"
proof (induction boxes arbitrary: s)
  case Nil
  show ?case by simp
next
  case (Cons b boxes)
  show ?case
    using Cons [of "associate s b"] associate_used [of s b] by auto
qed

lemma foldl_associate_unused:
  "tid \<notin> used_track_ids (foldl associate s boxes) \<Longrightarrow>
   map_of (tracked (foldl associate s boxes)) tid = map_of (tracked s) tid"
proof (induction boxes arbitrary: s)
  case Nil
  show ?case by simp
next
  case (Cons b boxes)
  have "tid \<notin> used_track_ids (foldl associate (associate s b) boxes)"
    using Cons.prems by simp
  moreover from this have "tid \<notin> used_track_ids (associate s b)"
    using foldl_associate_used [of "associate s b" boxes] by auto
  ultimately show ?case
    using Cons.IH [of "associate s b"] associate_unused [of tid s b] by simp
qed

lemma foldl_associate_next: "next_track_id s \<le> next_track_id (foldl associate s boxes)"
proof (induction boxes arbitrary: s)
  case Nil
  show ?case by simp
next
  case (Cons b boxes)
  show ?case
    using Cons [of "associate s b"] associate_next [of s b] by simp
qed



lemma foldl_associate_new_misses:
  "(\<forall>e \<in> set (new_tracked s). misses (snd e) = 0) \<Longrightarrow>
   (\<forall>e \<in> set (new_tracked (foldl associate s boxes)). misses (snd e) = 0)"
proof (induction boxes arbitrary: s)
  case Nil
  then show ?case by simp
next
  case (Cons b boxes)
  have "\<forall>e \<in> set (new_tracked (associate s b)). misses (snd e) = 0"
    by (rule associate_new_misses [OF Cons.prems])
  from Cons.IH [OF this] show ?case by simp
qed


lemma age_one_lookup:
  "map_of (age_one U new (tid, info)) k =
     (if k = tid \<and> tid \<notin> U \<and> misses info + 1 \<le> MAX_MISSES
      then Some (info\<lparr>misses := misses info + 1\<rparr>) else map_of new k)"
  by (simp add: age_one_def Let_def update_conv')

lemma age_fold_lookup:
  "distinct (map fst tr) \<Longrightarrow>
   map_of (foldl (age_one U) new tr) k =
     (case map_of tr k of
        None \<Rightarrow> map_of new k
      | Some info \<Rightarrow>
          if k \<notin> U \<and> misses info + 1 \<le> MAX_MISSES
          then Some (info\<lparr>misses := misses info + 1\<rparr>) else map_of new k)"
proof (induction tr arbitrary: new)
  case Nil
  show ?case by simp
next
  case (Cons e tr)
  obtain tid info where e: "e = (tid, info)" by (cases e)
  have d: "distinct (map fst tr)" and notin: "tid \<notin> fst ` set tr"
    using Cons.prems e by auto
  have none: "map_of tr tid = None"
    using notin by (simp add: map_of_eq_None_iff)
  have step: "map_of (foldl (age_one U) new (e # tr)) k =
     (case map_of tr k of
        None \<Rightarrow> map_of (age_one U new (tid, info)) k
      | Some info' \<Rightarrow>
          if k \<notin> U \<and> misses info' + 1 \<le> MAX_MISSES
          then Some (info'\<lparr>misses := misses info' + 1\<rparr>) else map_of (age_one U new (tid, info)) k)"
    using Cons.IH [OF d, of "age_one U new (tid, info)"] by (simp add: e)
  show ?case
  proof (cases "k = tid")
    case True
    then show ?thesis
      unfolding step by (simp add: e none age_one_lookup)
  next
    case False
    then show ?thesis
      unfolding step by (simp add: e age_one_lookup split: option.splits)
  qed
qed





lemma age_one_misses:
  assumes "\<forall>e \<in> set new. misses (snd e) \<le> MAX_MISSES"
  shows "\<forall>e \<in> set (age_one U new e'). misses (snd e) \<le> MAX_MISSES"
proof -
  have upd: "(\<forall>e \<in> set al. misses (snd e) \<le> MAX_MISSES) \<Longrightarrow> misses v \<le> MAX_MISSES \<Longrightarrow>
             (\<forall>e \<in> set (AList.update k v al). misses (snd e) \<le> MAX_MISSES)"
    for k :: int and v :: track and al
    by (induction al) auto
  obtain tid info where e: "e' = (tid, info)" by (cases e')
  show ?thesis
  proof (cases "tid \<notin> U \<and> misses info + 1 \<le> MAX_MISSES")
    case True
    then have "age_one U new e' = AList.update tid (info\<lparr>misses := misses info + 1\<rparr>) new"
      by (simp add: age_one_def e Let_def)
    then show ?thesis
      using upd [OF assms, of "info\<lparr>misses := misses info + 1\<rparr>" tid] True by simp
  next
    case False
    then have "age_one U new e' = new"
      by (auto simp: age_one_def e Let_def)
    then show ?thesis using assms by simp
  qed
qed

lemma age_fold_misses:
  "(\<forall>e \<in> set new. misses (snd e) \<le> MAX_MISSES) \<Longrightarrow>
   (\<forall>e \<in> set (foldl (age_one U) new tr). misses (snd e) \<le> MAX_MISSES)"
proof (induction tr arbitrary: new)
  case Nil
  then show ?case by simp
next
  case (Cons e tr)
  have "\<forall>x \<in> set (age_one U new e). misses (snd x) \<le> MAX_MISSES"
    by (rule age_one_misses [OF Cons.prems])
  from Cons.IH [OF this] show ?case by simp
qed

lemma update_tracks_eq:
  "update_tracks st boxes = (age_tracks (associate_all st boxes), next_track_id (associate_all st boxes))"
  by (simp add: update_tracks_def associate_all_def Let_def)

lemma associate_all_keys: "map fst (tracked (associate_all st boxes)) = map fst (fst st)"
  by (simp add: associate_all_def foldl_associate_keys)






lemma update_tracks_misses:
  "\<forall>e \<in> set (fst (update_tracks st boxes)). misses (snd e) \<le> MAX_MISSES"
proof -
  have "\<forall>e \<in> set (new_tracked (associate_all st boxes)). misses (snd e) = 0"
    unfolding associate_all_def by (rule foldl_associate_new_misses) simp
  then have "\<forall>e \<in> set (new_tracked (associate_all st boxes)). misses (snd e) \<le> MAX_MISSES"
    by (simp add: MAX_MISSES_def)
  then show ?thesis
    by (simp add: update_tracks_eq age_tracks_def age_fold_misses)
qed


lemma associate_new_keys_used:
  "fst ` set (new_tracked (associate s box))
     \<subseteq> fst ` set (new_tracked s) \<union> used_track_ids (associate s box)
         \<union> {next_track_id s ..< next_track_id (associate s box)}"
proof (cases rule: associate_cases [of box s])
  case (match tid best_iou info)
  then show ?thesis
    by (auto simp: match(4) dom_update)
next
  case (new best_id best_iou)
  then show ?thesis by (auto simp: dom_update)
qed

lemma foldl_associate_new_keys_used:
  "fst ` set (new_tracked (foldl associate s boxes))
     \<subseteq> fst ` set (new_tracked s) \<union> used_track_ids (foldl associate s boxes)
         \<union> {next_track_id s ..< next_track_id (foldl associate s boxes)}"
proof (induction boxes arbitrary: s)
  case Nil
  show ?case by simp
next
  case (Cons b boxes)
  have a: "fst ` set (new_tracked (foldl associate (associate s b) boxes))
     \<subseteq> fst ` set (new_tracked (associate s b)) \<union> used_track_ids (foldl associate (associate s b) boxes)
         \<union> {next_track_id (associate s b) ..< next_track_id (foldl associate (associate s b) boxes)}"
    by (rule Cons.IH)
  have u: "used_track_ids (associate s b) \<subseteq> used_track_ids (foldl associate (associate s b) boxes)"
    by (rule foldl_associate_used)
  have n1: "next_track_id s \<le> next_track_id (associate s b)" by (rule associate_next)
  have n2: "next_track_id (associate s b) \<le> next_track_id (foldl associate (associate s b) boxes)"
    by (rule foldl_associate_next)
  have "{next_track_id (associate s b) ..< next_track_id (foldl associate (associate s b) boxes)}
         \<subseteq> {next_track_id s ..< next_track_id (foldl associate (associate s b) boxes)}"
    using n1 by auto
  moreover have "{next_track_id s ..< next_track_id (associate s b)}
         \<subseteq> {next_track_id s ..< next_track_id (foldl associate (associate s b) boxes)}"
    using n2 by auto
  ultimately show ?case
    using a u associate_new_keys_used [of s b] unfolding foldl_Cons by blast
qed

lemma associate_all_new_keys_used:
  "fst ` set (new_tracked (associate_all st boxes))
     \<subseteq> used_track_ids (associate_all st boxes) \<union> {snd st ..< next_track_id (associate_all st boxes)}"
  using foldl_associate_new_keys_used
    [of "\<lparr>tracked = fst st, new_tracked = [], used_track_ids = {}, next_track_id = snd st\<rparr>" boxes]
  by (simp add: associate_all_def)

lemma associate_all_unused:
  "tid \<notin> used_track_ids (associate_all st boxes) \<Longrightarrow>
   map_of (tracked (associate_all st boxes)) tid = map_of (fst st) tid"
  using foldl_associate_unused
    [of tid "\<lparr>tracked = fst st, new_tracked = [], used_track_ids = {}, next_track_id = snd st\<rparr>" boxes]
  by (simp add: associate_all_def)









lemma associate_step:
  assumes "distinct (map fst (tracked s))"
    and "best_match box (tracked s) = (best_id, best_iou)"
  shows "(\<forall>e \<in> set (tracked s). iou_xyxy box (last_xyxy (snd e)) \<le> best_iou)
     \<and> (3 / 10 < best_iou \<longrightarrow>
          (\<exists>tid info. best_id = Some tid \<and> map_of (tracked s) tid = Some info
             \<and> iou_xyxy box (last_xyxy info) = best_iou
             \<and> associate s box =
                 s\<lparr>tracked := AList.update tid
                       (info\<lparr>count := count info + 1, last_xyxy := box, misses := 0\<rparr>) (tracked s),
                   new_tracked := AList.update tid
                       (info\<lparr>count := count info + 1, last_xyxy := box, misses := 0\<rparr>) (new_tracked s),
                   used_track_ids := insert tid (used_track_ids s)\<rparr>))
     \<and> (best_iou \<le> 3 / 10 \<longrightarrow>
          associate s box =
            s\<lparr>new_tracked := AList.update (next_track_id s)
                  \<lparr>count = 1, last_xyxy = box, misses = 0\<rparr> (new_tracked s),
              next_track_id := next_track_id s + 1\<rparr>)"
proof (intro conjI impI ballI)
  fix e assume "e \<in> set (tracked s)"
  then have "(fst e, snd e) \<in> set (tracked s)" by simp
  from best_match_bound [OF this, of box] show "iou_xyxy box (last_xyxy (snd e)) \<le> best_iou"
    by (simp add: assms(2))
next
  assume hi: "3 / 10 < best_iou"
  have "best_id \<noteq> None"
    using best_match_found [OF assms(2)] hi by (cases best_id) auto
  then obtain tid where tid: "best_id = Some tid" by auto
  obtain info where info: "map_of (tracked s) tid = Some info"
      "iou_xyxy box (last_xyxy info) = best_iou"
    using best_match_lookup [OF assms(1), of box tid best_iou] assms(2) tid by auto
  have "associate s box =
           s\<lparr>tracked := AList.update tid (matched_info info box) (tracked s),
             new_tracked := AList.update tid (matched_info info box) (new_tracked s),
             used_track_ids := insert tid (used_track_ids s)\<rparr>"
    using associate_match [of box s tid best_iou info] assms(2) tid hi info(1) by simp
  then show "\<exists>tid info. best_id = Some tid \<and> map_of (tracked s) tid = Some info
             \<and> iou_xyxy box (last_xyxy info) = best_iou
             \<and> associate s box =
                 s\<lparr>tracked := AList.update tid
                       (info\<lparr>count := count info + 1, last_xyxy := box, misses := 0\<rparr>) (tracked s),
                   new_tracked := AList.update tid
                       (info\<lparr>count := count info + 1, last_xyxy := box, misses := 0\<rparr>) (new_tracked s),
                   used_track_ids := insert tid (used_track_ids s)\<rparr>"
    using tid info unfolding matched_info_def by blast
next
  assume "best_iou \<le> 3 / 10"
  from associate_new [OF assms(2) this]
  show "associate s box =
            s\<lparr>new_tracked := AList.update (next_track_id s)
                  \<lparr>count = 1, last_xyxy = box, misses = 0\<rparr> (new_tracked s),
              next_track_id := next_track_id s + 1\<rparr>"
    by (simp add: new_info_def)
qed

lemma iou_xyxy_degenerate_left:
  assumes "x2 < x1 \<or> y2 < y1"
  shows "iou_xyxy (x1, y1, x2, y2) b = 0"
proof -
  obtain bx1 by1 bx2 by2 where b: "b = (bx1, by1, bx2, by2)" by (cases b)
  have "max 0 (min x2 bx2 - max x1 bx1 + 1) = 0 \<or> max 0 (min y2 by2 - max y1 by1 + 1) = 0"
    using assms by auto
  then have "max 0 (min x2 bx2 - max x1 bx1 + 1) * max 0 (min y2 by2 - max y1 by1 + 1) = 0"
    by auto
  then show ?thesis
    by (simp add: iou_xyxy_def b Let_def)
qed

lemma iou_xyxy_commute: "iou_xyxy a b = iou_xyxy b a"
  by (cases a; cases b) (simp add: iou_xyxy_def Let_def max.commute min.commute add.commute)

lemma best_match_zero:
  "(\<forall>e \<in> set t. iou_xyxy box (last_xyxy (snd e)) = 0) \<Longrightarrow> best_match box t = (None, 0)"
proof (induction t rule: rev_induct)
  case Nil
  show ?case by (simp add: best_match_Nil)
next
  case (snoc e t)
  then have "best_match box t = (None, 0)" by simp
  moreover have "iou_xyxy box (last_xyxy (snd e)) = 0" using snoc.prems by simp
  ultimately show ?case
    by (cases e) (simp add: best_match_snoc match_step_def)
qed

lemma nms_inter_degenerate:
  assumes "x2 < x1 \<or> y2 < y1"
  shows "nms_inter (to_float (x1, y1, x2, y2)) c = 0"
proof -
  obtain cx1 cy1 cx2 cy2 where c: "c = (cx1, cy1, cx2, cy2)" by (cases c)
  have x: "x2 < x1 \<Longrightarrow> min (rat_of_int x2) cx2 - max (rat_of_int x1) cx1 + 1 \<le> 0"
  proof -
    assume "x2 < x1"
    then have "x2 + 1 \<le> x1" by simp
    then have "rat_of_int x2 + 1 \<le> rat_of_int x1"
      by (metis of_int_1 of_int_add of_int_le_iff)
    then show ?thesis by (simp add: min_def max_def)
  qed
  have y: "y2 < y1 \<Longrightarrow> min (rat_of_int y2) cy2 - max (rat_of_int y1) cy1 + 1 \<le> 0"
  proof -
    assume "y2 < y1"
    then have "y2 + 1 \<le> y1" by simp
    then have "rat_of_int y2 + 1 \<le> rat_of_int y1"
      by (metis of_int_1 of_int_add of_int_le_iff)
    then show ?thesis by (simp add: min_def max_def)
  qed
  have "max 0 (min (rat_of_int x2) cx2 - max (rat_of_int x1) cx1 + 1) = 0
        \<or> max 0 (min (rat_of_int y2) cy2 - max (rat_of_int y1) cy1 + 1) = 0"
    using assms x y by (auto simp: max_def)
  then have "max 0 (min (rat_of_int x2) cx2 - max (rat_of_int x1) cx1 + 1)
             * max 0 (min (rat_of_int y2) cy2 - max (rat_of_int y1) cy1 + 1) = 0"
    by auto
  then show ?thesis
    by (simp add: nms_inter_def to_float_def c Let_def)
qed

lemma iou_xyxy_never_raises: "iou_xyxy_raising a b = Inr (iou_xyxy a b)"
  by (cases a; cases b) (simp add: iou_xyxy_raising_def iou_xyxy_def py_truediv_def Let_def)

lemma process_frame_one:
  assumes "is_argsort srt"
  shows "process_frame srt st [d] = Inr (update_tracks st [rect_to_xyxy d])"
  using nms_one_box [OF assms, of "to_float (rect_to_xyxy d)" NMS_OVERLAP_THRESH]
  by (simp add: process_frame_def astype_int_to_float)

section \<open>The claims\<close>

subsection \<open>C1: a track claimed twice in one frame\<close>

text \<open>
Claim C1 says that a track is matched by at most one candidate of a frame and that a later
  candidate whose best track is already claimed starts a new track. The file's docstring and
  the comment on \<^verbatim>\<open>STABLE_FRAMES_REQUIRED\<close> say that a face must be seen in 3 consecutive frames
  to be stable, and the loop fills \<^verbatim>\<open>used_track_ids\<close>, but the matching never tests it. The
  theorem runs the code on two frames, for every sort that meets \<open>is_argsort\<close> (the two boxes of
  the second frame have different areas): the first frame has the detection \<open>(0, 0, 99, 99)\<close>
  (as x, y, w, h), the second has \<open>(0, 90, 99, 99)\<close> and \<open>(0, 45, 99, 100)\<close>. Non-maximum
  suppression keeps both boxes of the second frame, both claim track 0, and the track has a
  count of 3 and is stable after two frames; no second track exists.
\<close>

theorem track_claimed_twice_stable_after_two_frames:
  assumes "is_argsort srt"
  shows "non_max_suppression srt (map (to_float \<circ> rect_to_xyxy) [(0, 90, 99, 99), (0, 45, 99, 100)])
           None NMS_OVERLAP_THRESH
       = Inr [(0, 45, 99, 145), (0, 90, 99, 189)]
   \<and> run_frames srt ([], 0) [[(0, 0, 99, 99)]]
       = Inr ([(0, \<lparr>count = 1, last_xyxy = (0, 0, 99, 99), misses = 0\<rparr>)], 1)
   \<and> run_frames srt ([], 0) [[(0, 0, 99, 99)], [(0, 90, 99, 99), (0, 45, 99, 100)]]
       = Inr ([(0, \<lparr>count = 3, last_xyxy = (0, 90, 99, 189), misses = 0\<rparr>)], 1)
   \<and> stable_tracks [(0, \<lparr>count = 3, last_xyxy = (0, 90, 99, 189), misses = 0\<rparr>)]
       = [(0, \<lparr>count = 3, last_xyxy = (0, 90, 99, 189), misses = 0\<rparr>)]"
proof -
  have m: "map (to_float \<circ> rect_to_xyxy) [(0, 90, 99, 99), (0, 45, 99, 100)]
             = [(0, 90, 99, 189), (0, 45, 99, 145)]"
    by (simp add: to_float_def rect_to_xyxy_def)
  have ar: "box_area (0, 90, 99, 189) < box_area (0, 45, 99, 145)"
    by (simp add: box_area_def)
  have ev: "map (\<lambda>i. astype_int ([(0, 90, 99, 189), (0, 45, 99, 145)] ! i))
              (nms_loop [(0, 90, 99, 189), (0, 45, 99, 145)] (2 / 5) [1, 0])
            = [(0, 45, 99, 145), (0, 90, 99, 189)]"
    by code_simp
  have nms2: "non_max_suppression srt (map (to_float \<circ> rect_to_xyxy) [(0, 90, 99, 99), (0, 45, 99, 100)])
           None NMS_OVERLAP_THRESH
       = Inr [(0, 45, 99, 145), (0, 90, 99, 189)]"
    using nms_two_boxes [OF assms ar, of "2 / 5"] by (simp only: m ev NMS_OVERLAP_THRESH_def)
  have r: "rect_to_xyxy (0, 0, 99, 99) = (0, 0, 99, 99)"
    by (simp add: rect_to_xyxy_def)
  have u1: "update_tracks ([], 0) [(0, 0, 99, 99)]
              = ([(0, \<lparr>count = 1, last_xyxy = (0, 0, 99, 99), misses = 0\<rparr>)], 1)"
    by code_simp
  have f1: "process_frame srt ([], 0) [(0, 0, 99, 99)]
              = Inr ([(0, \<lparr>count = 1, last_xyxy = (0, 0, 99, 99), misses = 0\<rparr>)], 1)"
    by (simp add: process_frame_one [OF assms] r u1)
  have u2: "update_tracks ([(0, \<lparr>count = 1, last_xyxy = (0, 0, 99, 99), misses = 0\<rparr>)], 1)
              [(0, 45, 99, 145), (0, 90, 99, 189)]
              = ([(0, \<lparr>count = 3, last_xyxy = (0, 90, 99, 189), misses = 0\<rparr>)], 1)"
    by code_simp
  have f2: "process_frame srt ([(0, \<lparr>count = 1, last_xyxy = (0, 0, 99, 99), misses = 0\<rparr>)], 1)
              [(0, 90, 99, 99), (0, 45, 99, 100)]
              = Inr ([(0, \<lparr>count = 3, last_xyxy = (0, 90, 99, 189), misses = 0\<rparr>)], 1)"
    by (simp only: process_frame_def nms2 sum.case u2)
  have one: "run_frames srt ([], 0) [[(0, 0, 99, 99)]]
       = Inr ([(0, \<lparr>count = 1, last_xyxy = (0, 0, 99, 99), misses = 0\<rparr>)], 1)"
    by (simp add: f1)
  have two: "run_frames srt ([], 0) [[(0, 0, 99, 99)], [(0, 90, 99, 99), (0, 45, 99, 100)]]
       = Inr ([(0, \<lparr>count = 3, last_xyxy = (0, 90, 99, 189), misses = 0\<rparr>)], 1)"
    by (simp add: f1 f2)
  have st: "stable_tracks [(0, \<lparr>count = 3, last_xyxy = (0, 90, 99, 189), misses = 0\<rparr>)]
       = [(0, \<lparr>count = 3, last_xyxy = (0, 90, 99, 189), misses = 0\<rparr>)]"
    by code_simp
  from nms2 one two st show ?thesis by (simp only: simp_thms)
qed

text \<open>
Claim C1, the run above with the sort by insertion.
\<close>

theorem track_claimed_twice_stable_after_two_frames_witness:
  "is_argsort argsort_by_insertion
   \<and> run_frames argsort_by_insertion ([], 0) [[(0, 0, 99, 99)], [(0, 90, 99, 99), (0, 45, 99, 100)]]
       = Inr ([(0, \<lparr>count = 3, last_xyxy = (0, 90, 99, 189), misses = 0\<rparr>)], 1)"
proof -
  have srt: "is_argsort argsort_by_insertion" by (rule argsort_by_insertion_ok)
  have "run_frames argsort_by_insertion ([], 0) [[(0, 0, 99, 99)], [(0, 90, 99, 99), (0, 45, 99, 100)]]
       = Inr ([(0, \<lparr>count = 3, last_xyxy = (0, 90, 99, 189), misses = 0\<rparr>)], 1)"
    using track_claimed_twice_stable_after_two_frames [OF srt] by blast
  with srt show ?thesis by (simp only: simp_thms)
qed

subsection \<open>C3: boxes of no width or height\<close>

text \<open>
Claim C3 says that a box with \<open>x2 < x1\<close> or \<open>y2 < y1\<close> is ranked lowest by non-maximum
  suppression. The box \<open>(100, 100, 0, 0)\<close> has the width and the height \<open>-99\<close>, so its area is
  \<open>9801\<close>; it is visited before the box \<open>(0, 0, 10, 10)\<close> of area \<open>121\<close>, and both are returned.
  The areas differ, so every sort that meets \<open>is_argsort\<close> gives this order.
\<close>

theorem degenerate_box_ranked_first_counterexample:
  "nms_order argsort_by_insertion (map to_float [(0, 0, 10, 10), (100, 100, 0, 0)]) None = [1, 0]
   \<and> box_area (to_float (0, 0, 10, 10)) < box_area (to_float (100, 100, 0, 0))
   \<and> non_max_suppression argsort_by_insertion (map to_float [(0, 0, 10, 10), (100, 100, 0, 0)]) None (2 / 5)
       = Inr [(100, 100, 0, 0), (0, 0, 10, 10)]"
  by code_simp

text \<open>
Claim C3, amended: \<^verbatim>\<open>iou_xyxy\<close> raises ZeroDivisionError for no pair of boxes (where the
  union is 0 it returns 0). For every box with \<open>x2 < x1\<close> or \<open>y2 < y1\<close> it returns 0 against
  every box, in either order; as a candidate such a box matches no track of any table and
  starts a new track; in \<^verbatim>\<open>non_max_suppression\<close> its intersection with every box is 0, and so is
  its IoU whenever the two areas do not add up to 0.
\<close>

theorem degenerate_box_never_matched:
  assumes "x2 < x1 \<or> y2 < y1"
  shows "iou_xyxy_raising p q = Inr (iou_xyxy p q)
     \<and> iou_xyxy_raising (x1, y1, x2, y2) b = Inr 0 \<and> iou_xyxy_raising b (x1, y1, x2, y2) = Inr 0
     \<and> iou_xyxy (x1, y1, x2, y2) b = 0 \<and> iou_xyxy b (x1, y1, x2, y2) = 0
     \<and> best_match (x1, y1, x2, y2) t = (None, 0)
     \<and> associate s (x1, y1, x2, y2) =
          s\<lparr>new_tracked := AList.update (next_track_id s)
                \<lparr>count = 1, last_xyxy = (x1, y1, x2, y2), misses = 0\<rparr> (new_tracked s),
            next_track_id := next_track_id s + 1\<rparr>
     \<and> nms_inter (to_float (x1, y1, x2, y2)) c = 0
     \<and> (box_area (to_float (x1, y1, x2, y2)) + box_area c \<noteq> 0
          \<longrightarrow> nms_iou (to_float (x1, y1, x2, y2)) c = Finite 0)"
proof -
  have l: "iou_xyxy (x1, y1, x2, y2) b = 0" for b
    by (rule iou_xyxy_degenerate_left [OF assms])
  have r: "iou_xyxy b (x1, y1, x2, y2) = 0"
    using l [of b] iou_xyxy_commute [of b "(x1, y1, x2, y2)"] by simp
  have bm: "best_match (x1, y1, x2, y2) t = (None, 0)" for t
    by (rule best_match_zero) (simp add: l)
  have as: "associate s (x1, y1, x2, y2) =
          s\<lparr>new_tracked := AList.update (next_track_id s)
                \<lparr>count = 1, last_xyxy = (x1, y1, x2, y2), misses = 0\<rparr> (new_tracked s),
            next_track_id := next_track_id s + 1\<rparr>"
    using associate_new [OF bm [of "tracked s"]] by (simp add: new_info_def)
  have ni: "nms_inter (to_float (x1, y1, x2, y2)) c = 0"
    by (rule nms_inter_degenerate [OF assms])
  have "nms_iou (to_float (x1, y1, x2, y2)) c = Finite 0"
    if "box_area (to_float (x1, y1, x2, y2)) + box_area c \<noteq> 0"
    using that by (simp add: nms_iou_def ni np_divide_def)
  then show ?thesis
    using l [of b] r bm [of t] as ni by (simp add: iou_xyxy_never_raises)
qed

text \<open>
Claim C3, the amended statement at the box \<open>(0, 0, -1, 5)\<close>: against \<open>(3, 3, 2, 9)\<close> the union
  is 0, where the division alone would raise, and \<^verbatim>\<open>iou_xyxy\<close> returns 0; against a track that
  surrounds it the box is not matched and starts track 1.
\<close>

theorem degenerate_box_never_matched_witness:
  "((- 1 :: int) < 0 \<or> (5 :: int) < 0)
   \<and> py_truediv 0 0 = Inl ZeroDivisionError
   \<and> iou_xyxy_raising (0, 0, - 1, 5) (3, 3, 2, 9) = Inr 0
   \<and> iou_xyxy_raising (0, 0, 9, 9) (0, 5, 9, 14) = Inr (1 / 3)
   \<and> best_match (0, 0, - 1, 5) [(0, \<lparr>count = 1, last_xyxy = (- 5, - 5, 20, 20), misses = 0\<rparr>)] = (None, 0)
   \<and> update_tracks ([(0, \<lparr>count = 1, last_xyxy = (- 5, - 5, 20, 20), misses = 0\<rparr>)], 1) [(0, 0, - 1, 5)]
       = ([(1, \<lparr>count = 1, last_xyxy = (0, 0, - 1, 5), misses = 0\<rparr>),
           (0, \<lparr>count = 1, last_xyxy = (- 5, - 5, 20, 20), misses = 1\<rparr>)], 2)"
proof -
  have h: "(- 1 :: int) < 0 \<or> (5 :: int) < 0" by simp
  have z: "py_truediv 0 0 = Inl ZeroDivisionError" by (simp add: py_truediv_def)
  have a: "iou_xyxy_raising (0, 0, - 1, 5) (3, 3, 2, 9) = Inr 0"
    using degenerate_box_never_matched [OF h] by blast
  have "iou_xyxy_raising (0, 0, 9, 9) (0, 5, 9, 14) = Inr (iou_xyxy (0, 0, 9, 9) (0, 5, 9, 14))"
    using degenerate_box_never_matched [OF h] by blast
  moreover have "iou_xyxy (0, 0, 9, 9) (0, 5, 9, 14) = 1 / 3" by code_simp
  ultimately have n: "iou_xyxy_raising (0, 0, 9, 9) (0, 5, 9, 14) = Inr (1 / 3)" by simp
  have b: "best_match (0, 0, - 1, 5) [(0, \<lparr>count = 1, last_xyxy = (- 5, - 5, 20, 20), misses = 0\<rparr>)] = (None, 0)"
    using degenerate_box_never_matched [OF h] by blast
  have c: "update_tracks ([(0, \<lparr>count = 1, last_xyxy = (- 5, - 5, 20, 20), misses = 0\<rparr>)], 1) [(0, 0, - 1, 5)]
       = ([(1, \<lparr>count = 1, last_xyxy = (0, 0, - 1, 5), misses = 0\<rparr>),
           (0, \<lparr>count = 1, last_xyxy = (- 5, - 5, 20, 20), misses = 1\<rparr>)], 2)"
    by code_simp
  from h z a n b c show ?thesis by (simp only: simp_thms)
qed

subsection \<open>C4: what non-maximum suppression returns\<close>

text \<open>
Claim C4 says that for every input sequence of boxes the function returns a subset of the
  input in which every two boxes have an IoU of at most the threshold. The function accepts
  rows with fractional coordinates and truncates the rows it keeps. For the two rows
  \<open>(0, 0, 9, 9)\<close> and \<open>(0, 1.5, 9, 20.5)\<close>, of the areas \<open>100\<close> and \<open>200\<close>, and the threshold \<open>0.4\<close>
  the IoU is \<open>17/43\<close>, both rows are kept, and the result holds \<open>(0, 1, 9, 20)\<close>, which is no
  input row and whose IoU with \<open>(0, 0, 9, 9)\<close> is \<open>3/7\<close>, above the threshold. The areas differ,
  so every sort that meets \<open>is_argsort\<close> visits the rows in this order.
\<close>

theorem nms_contract_fractional_counterexample:
  "non_max_suppression argsort_by_insertion [(0, 0, 9, 9), (0, 3 / 2, 9, 41 / 2)] None (2 / 5)
     = Inr [(0, 1, 9, 20), (0, 0, 9, 9)]
   \<and> to_float (0, 1, 9, 20) \<notin> set [(0, 0, 9, 9), (0, 3 / 2, 9, 41 / 2)]
   \<and> \<not> iou_xyxy (0, 1, 9, 20) (0, 0, 9, 9) \<le> 2 / 5"
  by code_simp

text \<open>
Claim C4, amended: for every sequence of boxes with integer coordinates, every threshold and
  scores that are absent or one per box, \<^verbatim>\<open>non_max_suppression\<close> returns a list of boxes that is
  a sub-multiset of the input, in which every two boxes have an IoU (as \<^verbatim>\<open>iou_xyxy\<close> computes it)
  of at most the threshold; the empty input gives the empty list and a single box is returned
  as it is. This holds for every sort that meets \<open>is_argsort\<close>.
\<close>

theorem nms_contract_integer_boxes:
  assumes "is_argsort srt" and "scores_fit bs scores"
  shows "\<exists>out. non_max_suppression srt (map to_float bs) scores thr = Inr out
           \<and> mset out \<subseteq># mset bs
           \<and> (\<forall>i j. i < j \<and> j < length out \<longrightarrow> iou_xyxy (out ! i) (out ! j) \<le> thr)
           \<and> (bs = [] \<longrightarrow> out = [])
           \<and> (\<forall>b. bs = [b] \<longrightarrow> out = [b])"
proof -
  define picks where "picks = nms_picks srt (map to_float bs) scores thr"
  define out where "out = map (\<lambda>i. bs ! i) picks"
  have fit: "scores_fit (map to_float bs) scores"
    using assms(2) by (simp add: scores_fit_map)
  have res: "non_max_suppression srt (map to_float bs) scores thr = Inr out"
    unfolding out_def picks_def by (rule nms_result_integer [OF assms])
  have dist: "distinct picks" unfolding picks_def by (rule nms_picks_distinct [OF assms(1)])
  have range: "set picks \<subseteq> {..<length bs}"
    using nms_picks_range [OF assms(1) fit, of thr] by (simp add: picks_def)
  have sub: "mset out \<subseteq># mset bs"
    unfolding out_def by (rule mset_nths_subset [OF dist range])
  have pw: "iou_xyxy (out ! i) (out ! j) \<le> thr" if "i < j" "j < length out" for i j
  proof -
    have len: "j < length picks" "i < length picks" using that by (simp_all add: out_def)
    have pi: "picks ! i < length bs" "picks ! j < length bs"
      using range len by (auto simp: subset_iff)
    have "np_le (nms_iou (map to_float bs ! (picks ! i)) (map to_float bs ! (picks ! j))) thr"
      using sorted_wrt_nth_less [OF nms_picks_pairwise [of "map to_float bs" thr srt scores] that(1)] len(1)
      by (simp add: picks_def)
    then have "iou_xyxy (bs ! (picks ! i)) (bs ! (picks ! j)) \<le> thr"
      using pi by (simp add: nms_iou_integer)
    then show ?thesis using len by (simp add: out_def)
  qed
  have emp: "out = []" if "bs = []"
    using range that by (simp add: out_def)
  have single: "out = [b]" if "bs = [b]" for b
  proof -
    have "scores_fit [to_float b] scores"
      using assms(2) that by (simp add: scores_fit_def split: option.splits)
    then have "nms_order srt [to_float b] scores = [0]"
      by (rule nms_order_single [OF assms(1)])
    then have "nms_order srt (map to_float bs) scores = [0]"
      using that by simp
    then have "picks = [0]" by (simp add: picks_def nms_picks_def)
    then show ?thesis using that by (simp add: out_def)
  qed
  show ?thesis
    using res sub pw emp single by blast
qed

text \<open>
Claim C4, the amended statement at three integer boxes of different areas, of which the
  third is suppressed, and at a single box.
\<close>

theorem nms_contract_integer_boxes_witness:
  "is_argsort argsort_by_insertion
   \<and> scores_fit [(0, 0, 9, 9), (0, 5, 9, 15), (0, 1, 9, 9) :: ibox] None
   \<and> non_max_suppression argsort_by_insertion
        (map to_float [(0, 0, 9, 9), (0, 5, 9, 15), (0, 1, 9, 9)]) None (2 / 5)
       = Inr [(0, 5, 9, 15), (0, 0, 9, 9)]
   \<and> mset [(0, 5, 9, 15), (0, 0, 9, 9)] \<subseteq># mset [(0, 0, 9, 9), (0, 5, 9, 15), (0, 1, 9, 9) :: ibox]
   \<and> iou_xyxy (0, 5, 9, 15) (0, 0, 9, 9) \<le> 2 / 5
   \<and> non_max_suppression argsort_by_insertion (map to_float [(3, 4, 5, 6)]) None (2 / 5)
       = Inr [(3, 4, 5, 6)]"
proof -
  have srt: "is_argsort argsort_by_insertion" by (rule argsort_by_insertion_ok)
  have fit: "scores_fit [(0, 0, 9, 9), (0, 5, 9, 15), (0, 1, 9, 9) :: ibox] None"
    by (simp add: scores_fit_def)
  have fit1: "scores_fit [(3, 4, 5, 6) :: ibox] None"
    by (simp add: scores_fit_def)
  have val: "non_max_suppression argsort_by_insertion
        (map to_float [(0, 0, 9, 9), (0, 5, 9, 15), (0, 1, 9, 9)]) None (2 / 5)
       = Inr [(0, 5, 9, 15), (0, 0, 9, 9)]"
    by code_simp
  obtain out where out: "non_max_suppression argsort_by_insertion
        (map to_float [(0, 0, 9, 9), (0, 5, 9, 15), (0, 1, 9, 9)]) None (2 / 5) = Inr out"
      "mset out \<subseteq># mset [(0, 0, 9, 9), (0, 5, 9, 15), (0, 1, 9, 9)]"
      "\<forall>i j. i < j \<and> j < length out \<longrightarrow> iou_xyxy (out ! i) (out ! j) \<le> 2 / 5"
    using nms_contract_integer_boxes [OF srt fit, of "2 / 5"] by blast
  have eq: "out = [(0, 5, 9, 15), (0, 0, 9, 9)]"
    using out(1) val by simp
  have "iou_xyxy (out ! 0) (out ! 1) \<le> 2 / 5"
    using out(3) [rule_format, of 0 1] by (simp add: eq)
  then have pw: "iou_xyxy (0, 5, 9, 15) (0, 0, 9, 9) \<le> 2 / 5"
    by (simp add: eq)
  have single: "non_max_suppression argsort_by_insertion (map to_float [(3, 4, 5, 6)]) None (2 / 5)
       = Inr [(3, 4, 5, 6)]"
    using nms_contract_integer_boxes [OF srt fit1, of "2 / 5"] by blast
  show ?thesis
    using srt fit val out(2) pw single by (simp only: eq simp_thms)
qed

subsection \<open>C5: tracks that no candidate matched\<close>

text \<open>
Claim C5: in a table with one entry per id and every id below the counter, a track that no
  candidate of the frame matched is, after the frame, in the table with its miss count one
  higher and nothing else changed if that count is at most \<^verbatim>\<open>MAX_MISSES\<close>, and is not in the
  table otherwise. Every track of the table after a frame has a miss count of at most
  \<^verbatim>\<open>MAX_MISSES\<close>.
\<close>

theorem unmatched_track_ages_or_leaves:
  assumes "table_ok (t, n)" and "map_of t tid = Some info"
    and "tid \<notin> used_track_ids (associate_all (t, n) boxes)"
  shows "map_of (fst (update_tracks (t, n) boxes)) tid =
           (if misses info + 1 \<le> MAX_MISSES then Some (info\<lparr>misses := misses info + 1\<rparr>) else None)
         \<and> (\<forall>e \<in> set (fst (update_tracks (t, n) boxes)). misses (snd e) \<le> MAX_MISSES)"
proof -
  define s where "s = associate_all (t, n) boxes"
  have unused: "tid \<notin> used_track_ids s"
    using assms(3) by (simp add: s_def)
  have d: "distinct (map fst (tracked s))"
    using assms(1) associate_all_keys [of "(t, n)" boxes] by (simp add: s_def table_ok_def)
  have look: "map_of (tracked s) tid = Some info"
    using associate_all_unused [of tid "(t, n)" boxes] assms(2,3) by (simp add: s_def)
  have "tid \<in> fst ` set t"
    using assms(2) by (metis domI dom_map_of_conv_image_fst)
  then have "tid < n" using assms(1) by (auto simp: table_ok_def)
  then have "tid \<notin> fst ` set (new_tracked s)"
    using associate_all_new_keys_used [of "(t, n)" boxes] assms(3) by (auto simp: s_def)
  then have none: "map_of (new_tracked s) tid = None"
    by (simp add: map_of_eq_None_iff)
  have "map_of (age_tracks s) tid =
           (if misses info + 1 \<le> MAX_MISSES then Some (info\<lparr>misses := misses info + 1\<rparr>) else None)"
    unfolding age_tracks_def age_fold_lookup [OF d]
    using unused by (simp add: look none)
  then show ?thesis
    using update_tracks_misses [of "(t, n)" boxes] by (simp add: update_tracks_eq s_def)
qed

text \<open>
Claim C5 at a track with a count of 3 in a frame without candidates: it stays, with one
  miss; a second frame without candidates drops it.
\<close>

theorem unmatched_track_ages_or_leaves_witness:
  "table_ok ([(0, \<lparr>count = 3, last_xyxy = (10, 10, 50, 50), misses = 0\<rparr>)], 1)
   \<and> map_of [(0 :: int, \<lparr>count = 3, last_xyxy = (10, 10, 50, 50), misses = 0\<rparr>)] 0
       = Some \<lparr>count = 3, last_xyxy = (10, 10, 50, 50), misses = 0\<rparr>
   \<and> 0 \<notin> used_track_ids
        (associate_all ([(0, \<lparr>count = 3, last_xyxy = (10, 10, 50, 50), misses = 0\<rparr>)], 1) [])
   \<and> map_of (fst (update_tracks ([(0, \<lparr>count = 3, last_xyxy = (10, 10, 50, 50), misses = 0\<rparr>)], 1) [])) 0
       = Some \<lparr>count = 3, last_xyxy = (10, 10, 50, 50), misses = 1\<rparr>
   \<and> update_tracks ([(0, \<lparr>count = 3, last_xyxy = (10, 10, 50, 50), misses = 1\<rparr>)], 1) [] = ([], 1)"
proof -
  have ok: "table_ok ([(0, \<lparr>count = 3, last_xyxy = (10, 10, 50, 50), misses = 0\<rparr>)], 1)"
    by (simp add: table_ok_def)
  have look: "map_of [(0 :: int, \<lparr>count = 3, last_xyxy = (10, 10, 50, 50), misses = 0\<rparr>)] 0
       = Some \<lparr>count = 3, last_xyxy = (10, 10, 50, 50), misses = 0\<rparr>"
    by simp
  have un: "0 \<notin> used_track_ids
        (associate_all ([(0, \<lparr>count = 3, last_xyxy = (10, 10, 50, 50), misses = 0\<rparr>)], 1) [])"
    by (simp add: associate_all_def)
  have "map_of (fst (update_tracks ([(0, \<lparr>count = 3, last_xyxy = (10, 10, 50, 50), misses = 0\<rparr>)], 1) [])) 0
       = (if misses \<lparr>count = 3, last_xyxy = (10, 10, 50, 50), misses = 0\<rparr> + 1 \<le> MAX_MISSES
          then Some (\<lparr>count = 3, last_xyxy = (10, 10, 50, 50), misses = 0\<rparr>
                      \<lparr>misses := misses \<lparr>count = 3, last_xyxy = (10, 10, 50, 50), misses = 0\<rparr> + 1\<rparr>)
          else None)"
    using unmatched_track_ages_or_leaves [OF ok look un] by blast
  then have first: "map_of (fst (update_tracks ([(0, \<lparr>count = 3, last_xyxy = (10, 10, 50, 50), misses = 0\<rparr>)], 1) [])) 0
       = Some \<lparr>count = 3, last_xyxy = (10, 10, 50, 50), misses = 1\<rparr>"
    by (simp add: MAX_MISSES_def)
  have second: "update_tracks ([(0, \<lparr>count = 3, last_xyxy = (10, 10, 50, 50), misses = 1\<rparr>)], 1) [] = ([], 1)"
    by code_simp
  from ok look un first second show ?thesis by (simp only: simp_thms)
qed

subsection \<open>C6: what one candidate does\<close>

text \<open>
Claim C6 says that a candidate whose best IoU against the previous table is at most 0.3
  starts a new track and leaves the existing track as it is. With the previous table holding
  track 0 at \<open>(0, 0, 99, 99)\<close> and the candidates \<open>(0, 45, 99, 145)\<close> and \<open>(0, 90, 99, 189)\<close>, the
  second candidate has the IoU \<open>1/19\<close> with the only track of the previous table. The first
  candidate has already overwritten the last box of track 0 in place, so the second one is
  scored against the first candidate's box, matches track 0, and the frame ends with one
  track of count 3 and the counter unchanged. Processed alone, the same candidate starts
  track 1, as the claim says. This is the defect of claim C1.
\<close>

theorem later_candidate_matched_against_earlier_candidate:
  "iou_xyxy (0, 45, 99, 145) (0, 0, 99, 99) = 55 / 146
   \<and> iou_xyxy (0, 90, 99, 189) (0, 0, 99, 99) = 1 / 19
   \<and> best_match (0, 90, 99, 189) [(0, \<lparr>count = 1, last_xyxy = (0, 0, 99, 99), misses = 0\<rparr>)]
       = (Some 0, 1 / 19)
   \<and> (1 / 19 :: rat) \<le> 3 / 10
   \<and> update_tracks ([(0, \<lparr>count = 1, last_xyxy = (0, 0, 99, 99), misses = 0\<rparr>)], 1)
        [(0, 45, 99, 145), (0, 90, 99, 189)]
       = ([(0, \<lparr>count = 3, last_xyxy = (0, 90, 99, 189), misses = 0\<rparr>)], 1)
   \<and> update_tracks ([(0, \<lparr>count = 1, last_xyxy = (0, 0, 99, 99), misses = 0\<rparr>)], 1)
        [(0, 90, 99, 189)]
       = ([(1, \<lparr>count = 1, last_xyxy = (0, 90, 99, 189), misses = 0\<rparr>),
           (0, \<lparr>count = 1, last_xyxy = (0, 0, 99, 99), misses = 1\<rparr>)], 2)"
  by code_simp

subsection \<open>C7: stable tracks\<close>

text \<open>
Claim C7: a track is stable exactly when its count is at least \<^verbatim>\<open>STABLE_FRAMES_REQUIRED\<close>,
  which is 3; the stable tracks of a table are the entries of the table that pass this test;
  and the detection of the box \<open>(10, 10, 50, 50)\<close> in three frames in a row, from the empty
  table, gives one track with a count of 3, which is stable, while after two frames no track
  is stable. The run through non-maximum suppression holds for every sort that meets
  \<open>is_argsort\<close>.
\<close>

theorem stable_after_three_frames:
  assumes "is_argsort srt"
  shows "is_stable info = (STABLE_FRAMES_REQUIRED \<le> count info)
   \<and> STABLE_FRAMES_REQUIRED = 3
   \<and> stable_tracks t = filter (\<lambda>(tid, info). is_stable info) t
   \<and> set (stable_tracks t) = {e \<in> set t. 3 \<le> count (snd e)}
   \<and> run_frames srt ([], 0) [[(10, 10, 40, 40)], [(10, 10, 40, 40)], [(10, 10, 40, 40)]]
       = Inr ([(0, \<lparr>count = 3, last_xyxy = (10, 10, 50, 50), misses = 0\<rparr>)], 1)
   \<and> session [[(10, 10, 50, 50)], [(10, 10, 50, 50)], [(10, 10, 50, 50)]]
       = ([(0, \<lparr>count = 3, last_xyxy = (10, 10, 50, 50), misses = 0\<rparr>)], 1)
   \<and> stable_tracks [(0, \<lparr>count = 3, last_xyxy = (10, 10, 50, 50), misses = 0\<rparr>)]
       = [(0, \<lparr>count = 3, last_xyxy = (10, 10, 50, 50), misses = 0\<rparr>)]
   \<and> stable_tracks (fst (session [[(10, 10, 50, 50)], [(10, 10, 50, 50)]])) = []"
proof -
  have r: "rect_to_xyxy (10, 10, 40, 40) = (10, 10, 50, 50)"
    by (simp add: rect_to_xyxy_def)
  have "run_frames srt ([], 0) [[(10, 10, 40, 40)], [(10, 10, 40, 40)], [(10, 10, 40, 40)]]
       = Inr (update_tracks (update_tracks (update_tracks ([], 0) [(10, 10, 50, 50)])
                [(10, 10, 50, 50)]) [(10, 10, 50, 50)])"
    by (simp add: process_frame_one [OF assms] r)
  moreover have "update_tracks (update_tracks (update_tracks ([], 0) [(10, 10, 50, 50)])
                [(10, 10, 50, 50)]) [(10, 10, 50, 50)]
       = ([(0, \<lparr>count = 3, last_xyxy = (10, 10, 50, 50), misses = 0\<rparr>)], 1)"
    by code_simp
  ultimately have a: "run_frames srt ([], 0) [[(10, 10, 40, 40)], [(10, 10, 40, 40)], [(10, 10, 40, 40)]]
       = Inr ([(0, \<lparr>count = 3, last_xyxy = (10, 10, 50, 50), misses = 0\<rparr>)], 1)"
    by simp
  have b: "session [[(10, 10, 50, 50)], [(10, 10, 50, 50)], [(10, 10, 50, 50)]]
       = ([(0, \<lparr>count = 3, last_xyxy = (10, 10, 50, 50), misses = 0\<rparr>)], 1)"
    by code_simp
  have c: "stable_tracks [(0, \<lparr>count = 3, last_xyxy = (10, 10, 50, 50), misses = 0\<rparr>)]
       = [(0, \<lparr>count = 3, last_xyxy = (10, 10, 50, 50), misses = 0\<rparr>)]"
    by code_simp
  have d: "stable_tracks (fst (session [[(10, 10, 50, 50)], [(10, 10, 50, 50)]])) = []"
    by code_simp
  have e: "set (stable_tracks t) = {e \<in> set t. 3 \<le> count (snd e)}"
    by (auto simp: stable_tracks_def is_stable_def STABLE_FRAMES_REQUIRED_def)
  have f: "is_stable info = (STABLE_FRAMES_REQUIRED \<le> count info)"
    by (simp add: is_stable_def)
  have g: "STABLE_FRAMES_REQUIRED = 3" by (simp add: STABLE_FRAMES_REQUIRED_def)
  have h: "stable_tracks t = filter (\<lambda>(tid, info). is_stable info) t"
    by (simp add: stable_tracks_def)
  from f g h e a b c d show ?thesis by (simp only: simp_thms)
qed

text \<open>
Claim C7, the run of three frames with the sort by insertion, and the test at the counts 3
  and 2.
\<close>

theorem stable_after_three_frames_witness:
  "is_argsort argsort_by_insertion
   \<and> run_frames argsort_by_insertion ([], 0) [[(10, 10, 40, 40)], [(10, 10, 40, 40)], [(10, 10, 40, 40)]]
       = Inr ([(0, \<lparr>count = 3, last_xyxy = (10, 10, 50, 50), misses = 0\<rparr>)], 1)
   \<and> is_stable \<lparr>count = 3, last_xyxy = (10, 10, 50, 50), misses = 0\<rparr>
   \<and> \<not> is_stable \<lparr>count = 2, last_xyxy = (10, 10, 50, 50), misses = 0\<rparr>"
proof -
  have srt: "is_argsort argsort_by_insertion" by (rule argsort_by_insertion_ok)
  have a: "run_frames argsort_by_insertion ([], 0) [[(10, 10, 40, 40)], [(10, 10, 40, 40)], [(10, 10, 40, 40)]]
       = Inr ([(0, \<lparr>count = 3, last_xyxy = (10, 10, 50, 50), misses = 0\<rparr>)], 1)"
    using stable_after_three_frames [OF srt] by blast
  have "is_stable \<lparr>count = 3, last_xyxy = (10, 10, 50, 50), misses = 0\<rparr>
         = (STABLE_FRAMES_REQUIRED \<le> count \<lparr>count = 3, last_xyxy = (10, 10, 50, 50), misses = 0\<rparr>)"
    using stable_after_three_frames [OF srt] by blast
  then have b: "is_stable \<lparr>count = 3, last_xyxy = (10, 10, 50, 50), misses = 0\<rparr>"
    by (simp add: STABLE_FRAMES_REQUIRED_def)
  have "is_stable \<lparr>count = 2, last_xyxy = (10, 10, 50, 50), misses = 0\<rparr>
         = (STABLE_FRAMES_REQUIRED \<le> count \<lparr>count = 2, last_xyxy = (10, 10, 50, 50), misses = 0\<rparr>)"
    using stable_after_three_frames [OF srt] by blast
  then have c: "\<not> is_stable \<lparr>count = 2, last_xyxy = (10, 10, 50, 50), misses = 0\<rparr>"
    by (simp add: STABLE_FRAMES_REQUIRED_def)
  from srt a b c show ?thesis by (simp only: simp_thms)
qed

subsection \<open>C8: track ids\<close>



subsection \<open>C9: a second pass of non-maximum suppression\<close>

text \<open>
Claim C9 says that for every input the function returns its own output unchanged. For the
  fractional rows \<open>(0, 0, 9, 9)\<close> and \<open>(0, 1.5, 9, 20.5)\<close> the first pass returns two boxes,
  and the second pass, on these two boxes, suppresses one of them. The areas differ in both
  passes, so every sort that meets \<open>is_argsort\<close> gives these results.
\<close>

theorem nms_idempotence_fractional_counterexample:
  "non_max_suppression argsort_by_insertion [(0, 0, 9, 9), (0, 3 / 2, 9, 41 / 2)] None (2 / 5)
     = Inr [(0, 1, 9, 20), (0, 0, 9, 9)]
   \<and> non_max_suppression argsort_by_insertion (map to_float [(0, 1, 9, 20), (0, 0, 9, 9)]) None (2 / 5)
     = Inr [(0, 1, 9, 20)]"
  by code_simp

text \<open>
Claim C9, amended: for every sequence of boxes with integer coordinates and every threshold,
  a second pass over the returned boxes (without scores) suppresses nothing: it returns the
  same boxes, each as often as the first pass did. This holds for every sort that meets
  \<open>is_argsort\<close>; nothing is said about the order of the returned list.
\<close>

theorem nms_idempotent_integer_boxes:
  assumes "is_argsort srt" and "scores_fit bs scores"
    and "non_max_suppression srt (map to_float bs) scores thr = Inr out"
  shows "\<exists>out'. non_max_suppression srt (map to_float out) None thr = Inr out' \<and> mset out' = mset out"
proof -
  define picks where "picks = nms_picks srt (map to_float bs) scores thr"
  have fit: "scores_fit (map to_float bs) scores"
    using assms(2) by (simp add: scores_fit_map)
  have out: "out = map (\<lambda>i. bs ! i) picks"
    using nms_result_integer [OF assms(1,2), of thr] assms(3) by (simp add: picks_def)
  have range: "set picks \<subseteq> {..<length bs}"
    using nms_picks_range [OF assms(1) fit, of thr] by (simp add: picks_def)
  have len: "length out = length picks" by (simp add: out)
  have nth: "map to_float out ! k = map to_float bs ! (picks ! k)" if "k < length picks" for k
  proof -
    have "picks ! k < length bs" using range that by (auto simp: subset_iff)
    then show ?thesis using that by (simp add: out)
  qed
  have keep: "np_le (nms_iou (map to_float out ! k) (map to_float out ! l)) thr"
    if kl: "k < length picks" "l < length picks" "k \<noteq> l" for k l
  proof -
    have sw: "sorted_wrt (\<lambda>i j. np_le (nms_iou (map to_float bs ! i) (map to_float bs ! j)) thr) picks"
      unfolding picks_def by (rule nms_picks_pairwise)
    consider "k < l" | "l < k" using kl(3) by linarith
    then have "np_le (nms_iou (map to_float bs ! (picks ! k)) (map to_float bs ! (picks ! l))) thr"
    proof cases
      case 1
      from sorted_wrt_nth_less [OF sw 1 kl(2)] show ?thesis .
    next
      case 2
      from sorted_wrt_nth_less [OF sw 2 kl(1)] show ?thesis
        by (simp only: nms_iou_commute [of "map to_float bs ! (picks ! k)"])
    qed
    then show ?thesis by (simp only: nth [OF kl(1)] nth [OF kl(2)])
  qed
  have fit2: "scores_fit (map to_float out) None" by (simp add: scores_fit_def)
  have fit3: "scores_fit out None" by (simp add: scores_fit_def)
  have ord: "set (nms_order srt (map to_float out) None) = {..<length picks}"
    using nms_order_set [OF assms(1) fit2] by (simp add: len)
  have "nms_loop (map to_float out) thr (nms_order srt (map to_float out) None)
          = nms_order srt (map to_float out) None"
  proof (rule nms_loop_keeps_all)
    show "distinct (nms_order srt (map to_float out) None)" by (rule nms_order_distinct [OF assms(1)])
    show "\<forall>i\<in>set (nms_order srt (map to_float out) None). \<forall>j\<in>set (nms_order srt (map to_float out) None).
            i \<noteq> j \<longrightarrow> np_le (nms_iou (map to_float out ! i) (map to_float out ! j)) thr"
      unfolding ord using keep by blast
  qed
  then have picks2: "nms_picks srt (map to_float out) None thr = nms_order srt (map to_float out) None"
    by (simp only: nms_picks_def)
  have res2: "non_max_suppression srt (map to_float out) None thr =
                Inr (map (\<lambda>i. out ! i) (nms_order srt (map to_float out) None))"
    using nms_result_integer [OF assms(1) fit3, of thr] by (simp only: picks2)
  have "mset (nms_order srt (map to_float out) None) = mset [0..<length out]"
    using nms_order_mset [OF assms(1) fit2] by simp
  then have "mset (map (\<lambda>i. out ! i) (nms_order srt (map to_float out) None)) = mset out"
    by (rule mset_map_nth_perm)
  with res2 show ?thesis by blast
qed

text \<open>
Claim C9, the amended statement at three integer boxes of different areas: the second pass
  returns the two surviving boxes.
\<close>

theorem nms_idempotent_integer_boxes_witness:
  "is_argsort argsort_by_insertion
   \<and> scores_fit [(0, 0, 9, 9), (0, 5, 9, 15), (0, 1, 9, 9) :: ibox] None
   \<and> non_max_suppression argsort_by_insertion
        (map to_float [(0, 0, 9, 9), (0, 5, 9, 15), (0, 1, 9, 9)]) None (2 / 5)
       = Inr [(0, 5, 9, 15), (0, 0, 9, 9)]
   \<and> non_max_suppression argsort_by_insertion
        (map to_float [(0, 5, 9, 15), (0, 0, 9, 9)]) None (2 / 5)
       = Inr [(0, 5, 9, 15), (0, 0, 9, 9)]
   \<and> mset [(0, 5, 9, 15), (0, 0, 9, 9)] = mset [(0, 5, 9, 15), (0, 0, 9, 9) :: ibox]"
proof -
  have srt: "is_argsort argsort_by_insertion" by (rule argsort_by_insertion_ok)
  have fit: "scores_fit [(0, 0, 9, 9), (0, 5, 9, 15), (0, 1, 9, 9) :: ibox] None"
    by (simp add: scores_fit_def)
  have val: "non_max_suppression argsort_by_insertion
        (map to_float [(0, 0, 9, 9), (0, 5, 9, 15), (0, 1, 9, 9)]) None (2 / 5)
       = Inr [(0, 5, 9, 15), (0, 0, 9, 9)]"
    by code_simp
  have val2: "non_max_suppression argsort_by_insertion
        (map to_float [(0, 5, 9, 15), (0, 0, 9, 9)]) None (2 / 5)
       = Inr [(0, 5, 9, 15), (0, 0, 9, 9)]"
    by code_simp
  obtain out' where o: "non_max_suppression argsort_by_insertion
        (map to_float [(0, 5, 9, 15), (0, 0, 9, 9)]) None (2 / 5) = Inr out'"
     "mset out' = mset [(0, 5, 9, 15), (0, 0, 9, 9)]"
    using nms_idempotent_integer_boxes [OF srt fit val] by blast
  have "out' = [(0, 5, 9, 15), (0, 0, 9, 9)]" using o(1) val2 by simp
  with o(2) have "mset [(0, 5, 9, 15), (0, 0, 9, 9)] = mset [(0, 5, 9, 15), (0, 0, 9, 9) :: ibox]"
    by simp
  with srt fit val val2 show ?thesis by (simp only: simp_thms)
qed

subsection \<open>C10: truncation of the returned boxes\<close>

text \<open>
Claim C10: the boxes that \<^verbatim>\<open>non_max_suppression\<close> returns are the rows of the float array at
  the picked indices, each coordinate truncated toward zero. When every coordinate of the
  input is a whole number each returned box is the input row it comes from; a picked row with
  a fractional coordinate is returned as a different box. This holds for every sort that
  meets \<open>is_argsort\<close>.
\<close>

theorem nms_truncates_returned_boxes:
  assumes "is_argsort srt" and "scores_fit boxes scores"
  shows "\<exists>picks. distinct picks \<and> set picks \<subseteq> {..<length boxes}
           \<and> non_max_suppression srt boxes scores thr = Inr (map (\<lambda>i. astype_int (boxes ! i)) picks)
           \<and> ((\<forall>b \<in> set boxes. whole_box b) \<longrightarrow>
                (\<forall>i \<in> set picks. to_float (astype_int (boxes ! i)) = boxes ! i))
           \<and> (\<forall>i \<in> set picks. \<not> whole_box (boxes ! i) \<longrightarrow>
                to_float (astype_int (boxes ! i)) \<noteq> boxes ! i)"
proof (intro exI conjI)
  show "distinct (nms_picks srt boxes scores thr)" by (rule nms_picks_distinct [OF assms(1)])
  show r: "set (nms_picks srt boxes scores thr) \<subseteq> {..<length boxes}"
    by (rule nms_picks_range [OF assms])
  show "non_max_suppression srt boxes scores thr =
          Inr (map (\<lambda>i. astype_int (boxes ! i)) (nms_picks srt boxes scores thr))"
    by (rule nms_result_picks [OF assms])
  show "(\<forall>b \<in> set boxes. whole_box b) \<longrightarrow>
          (\<forall>i \<in> set (nms_picks srt boxes scores thr). to_float (astype_int (boxes ! i)) = boxes ! i)"
    using r by (auto simp: to_float_astype_int subset_iff)
  show "\<forall>i \<in> set (nms_picks srt boxes scores thr). \<not> whole_box (boxes ! i) \<longrightarrow>
          to_float (astype_int (boxes ! i)) \<noteq> boxes ! i"
    by (simp add: to_float_astype_int)
qed

text \<open>
Claim C10 at the single row \<open>(0.5, -1.5, 10.5, 8.5)\<close>: the returned box \<open>(0, -1, 10, 8)\<close>
  equals no input row; and a row of whole numbers is returned as it is.
\<close>

theorem nms_truncates_returned_boxes_witness:
  "is_argsort argsort_by_insertion
   \<and> scores_fit [(1 / 2, - 3 / 2, 21 / 2, 17 / 2) :: fbox] None
   \<and> non_max_suppression argsort_by_insertion [(1 / 2, - 3 / 2, 21 / 2, 17 / 2)] None (2 / 5)
       = Inr [(0, - 1, 10, 8)]
   \<and> \<not> whole_box (1 / 2, - 3 / 2, 21 / 2, 17 / 2)
   \<and> to_float (0, - 1, 10, 8) \<notin> set [(1 / 2, - 3 / 2, 21 / 2, 17 / 2)]
   \<and> whole_box (3, 4, 5, 6)
   \<and> non_max_suppression argsort_by_insertion [(3, 4, 5, 6)] None (2 / 5) = Inr [(3, 4, 5, 6)]"
proof -
  have srt: "is_argsort argsort_by_insertion" by (rule argsort_by_insertion_ok)
  have fit: "scores_fit [(1 / 2, - 3 / 2, 21 / 2, 17 / 2) :: fbox] None"
    by (simp add: scores_fit_def)
  have nw: "\<not> whole_box (1 / 2, - 3 / 2, 21 / 2, 17 / 2)"
    by code_simp
  have w: "whole_box (3, 4, 5, 6)"
    by code_simp
  obtain picks where p: "distinct picks" "set picks \<subseteq> {..<length [(1 / 2, - 3 / 2, 21 / 2, 17 / 2) :: fbox]}"
      "non_max_suppression argsort_by_insertion [(1 / 2, - 3 / 2, 21 / 2, 17 / 2)] None (2 / 5)
         = Inr (map (\<lambda>i. astype_int ([(1 / 2, - 3 / 2, 21 / 2, 17 / 2)] ! i)) picks)"
      "\<forall>i \<in> set picks. \<not> whole_box ([(1 / 2, - 3 / 2, 21 / 2, 17 / 2)] ! i) \<longrightarrow>
          to_float (astype_int ([(1 / 2, - 3 / 2, 21 / 2, 17 / 2)] ! i)) \<noteq> [(1 / 2, - 3 / 2, 21 / 2, 17 / 2)] ! i"
    using nms_truncates_returned_boxes [OF srt fit, of "2 / 5"] by blast
  have val: "non_max_suppression argsort_by_insertion [(1 / 2, - 3 / 2, 21 / 2, 17 / 2)] None (2 / 5)
       = Inr [(0, - 1, 10, 8)]"
    by code_simp
  have val2: "non_max_suppression argsort_by_insertion [(3, 4, 5, 6)] None (2 / 5) = Inr [(3, 4, 5, 6)]"
    by code_simp
  have "picks = [0]"
    using p(1,2,3) val by (cases picks) auto
  then have "to_float (astype_int (1 / 2, - 3 / 2, 21 / 2, 17 / 2)) \<noteq> (1 / 2, - 3 / 2, 21 / 2, 17 / 2)"
    using p(4) nw by simp
  moreover have "astype_int (1 / 2, - 3 / 2, 21 / 2, 17 / 2) = (0, - 1, 10, 8)"
    by code_simp
  ultimately have ne: "to_float (0, - 1, 10, 8) \<notin> set [(1 / 2, - 3 / 2, 21 / 2, 17 / 2)]"
    by simp
  from srt fit val nw ne w val2 show ?thesis by (simp only: simp_thms)
qed

end
